theory Spec2Isabelle
  imports Main "HOL-Library.Word"
begin

unbundle bit_operations_syntax

section \<open>Data model of the EEPROM macro store (atmega32u4.c)\<close>

text \<open>
  Bytes are \<open>uint8_t\<close>; EEMEM addresses are the 16-bit \<open>void *\<close> pointers of the AVR,
  with byte-wise pointer arithmetic that wraps modulo \<open>2 ^ 16\<close>.
\<close>

type_synonym byte = "8 word"
type_synonym addr = "16 word"

text \<open>
  The two build options \<open>OPT__EEPROM__EEPROM_MACRO__START\<close> and
  \<open>OPT__EEPROM__EEPROM_MACRO__END\<close> come from the keyboard's option header, which is
  not part of this file; they are parameters of the model.
\<close>

record options =
  OPT__EEPROM__EEPROM_MACRO__START :: addr
  OPT__EEPROM__EEPROM_MACRO__END :: addr

definition EEMEM_START :: "options \<Rightarrow> addr" where
  "EEMEM_START opts = OPT__EEPROM__EEPROM_MACRO__START opts"

definition EEMEM_START_ADDRESS_START :: "options \<Rightarrow> addr" where
  "EEMEM_START_ADDRESS_START opts = EEMEM_START opts + 0"

definition EEMEM_START_ADDRESS_END :: "options \<Rightarrow> addr" where
  "EEMEM_START_ADDRESS_END opts = EEMEM_START_ADDRESS_START opts + 1"

definition EEMEM_END_ADDRESS_START :: "options \<Rightarrow> addr" where
  "EEMEM_END_ADDRESS_START opts = EEMEM_START_ADDRESS_END opts + 1"

definition EEMEM_END_ADDRESS_END :: "options \<Rightarrow> addr" where
  "EEMEM_END_ADDRESS_END opts = EEMEM_END_ADDRESS_START opts + 1"

definition EEMEM_VERSION_START :: "options \<Rightarrow> addr" where
  "EEMEM_VERSION_START opts = EEMEM_END_ADDRESS_END opts + 1"

definition EEMEM_VERSION_END :: "options \<Rightarrow> addr" where
  "EEMEM_VERSION_END opts = EEMEM_VERSION_START opts + 0"

definition EEMEM_MACROS_START :: "options \<Rightarrow> addr" where
  "EEMEM_MACROS_START opts = EEMEM_VERSION_END opts + 1"

definition EEMEM_END :: "options \<Rightarrow> addr" where
  "EEMEM_END opts = OPT__EEPROM__EEPROM_MACRO__END opts"

definition TYPE_DELETED :: byte where "TYPE_DELETED = 0x00"
definition TYPE_VALID_MACRO :: byte where "TYPE_VALID_MACRO = 0x01"
definition TYPE_CONTINUED :: byte where "TYPE_CONTINUED = 0x02"
definition TYPE_END :: byte where "TYPE_END = 0xFF"

record key_action_t =
  pressed :: bool
  layer :: byte
  row :: byte
  column :: byte

subsection \<open>The EEPROM and its write queue\<close>

text \<open>
  Modelled from the spec: the EEPROM wrapper of \<open>lib/eeprom.h\<close> (\<open>eeprom__read\<close>,
  \<open>eeprom__write\<close>, \<open>eeprom__copy\<close>) is not in this file. Following the spec's
  section on external interfaces, a read returns the byte now stored at the address,
  while a write and a copy of at most 255 bytes are queued and applied later, in
  the order in which they were queued. A queued copy reads its source bytes when it is
  applied, one byte after the other from the lowest address up; for a destination below
  the source (the only use in this file) this is the same as copying the whole block at
  once.
\<close>

datatype nvm_op = Write addr byte | Copy addr addr byte

record state =
  eeprom :: "addr \<Rightarrow> byte"
  queue :: "nvm_op list"
  end_macro :: addr
  new_end_macro :: addr

definition eeprom__read :: "state \<Rightarrow> addr \<Rightarrow> byte" where
  "eeprom__read s a = eeprom s a"

definition eeprom__write :: "state \<Rightarrow> addr \<Rightarrow> byte \<Rightarrow> state" where
  "eeprom__write s a b = s\<lparr>queue := queue s @ [Write a b]\<rparr>"

definition eeprom__copy :: "state \<Rightarrow> addr \<Rightarrow> addr \<Rightarrow> byte \<Rightarrow> state" where
  "eeprom__copy s to from len = s\<lparr>queue := queue s @ [Copy to from len]\<rparr>"

fun copy_bytes :: "(addr \<Rightarrow> byte) \<Rightarrow> addr \<Rightarrow> addr \<Rightarrow> nat \<Rightarrow> (addr \<Rightarrow> byte)" where
  "copy_bytes m to from 0 = m"
| "copy_bytes m to from (Suc n) = copy_bytes (m(to := m from)) (to + 1) (from + 1) n"

fun apply_op :: "nvm_op \<Rightarrow> (addr \<Rightarrow> byte) \<Rightarrow> (addr \<Rightarrow> byte)" where
  "apply_op (Write a b) m = m(a := b)"
| "apply_op (Copy to from len) m = copy_bytes m to from (unat len)"

definition apply_ops :: "nvm_op list \<Rightarrow> (addr \<Rightarrow> byte) \<Rightarrow> (addr \<Rightarrow> byte)" where
  "apply_ops ops m = fold apply_op ops m"

definition flush :: "state \<Rightarrow> state" where
  "flush s = s\<lparr>eeprom := apply_ops (queue s) (eeprom s), queue := []\<rparr>"

section \<open>The key-action codec\<close>

text \<open>
  \<open>read_key_action\<close>: the first byte seeds the key-action; the \<open>while (byte >> 7)\<close>
  loop reads on for as long as the continuation bit is set. The loop has no bound, so it
  is a partial function: \<open>None\<close> stands for a loop that never ends.
\<close>

definition shift_pairs :: "key_action_t \<Rightarrow> key_action_t" where
  "shift_pairs k = k\<lparr>layer := push_bit 2 (layer k),
                     row := push_bit 2 (row k),
                     column := push_bit 2 (column k)\<rparr>"

partial_function (option) read_key_action_loop ::
  "state \<Rightarrow> addr \<Rightarrow> byte \<Rightarrow> key_action_t \<Rightarrow> key_action_t option" where
  "read_key_action_loop s from byte k =
     (if drop_bit 7 byte \<noteq> 0 then
        (let byte' = eeprom__read s from;
             from' = from + 1;
             k1 = shift_pairs k;
             k2 = k1\<lparr>layer := layer k1 OR (drop_bit 4 byte' AND 3),
                     row := row k1 OR (drop_bit 2 byte' AND 3),
                     column := column k1 OR (drop_bit 0 byte' AND 3)\<rparr>
         in read_key_action_loop s from' byte' k2)
      else Some k)"

definition read_key_action :: "state \<Rightarrow> addr \<Rightarrow> key_action_t option" where
  "read_key_action s from =
     (let byte = eeprom__read s from;
          from' = from + 1;
          k = \<lparr>pressed = (drop_bit 6 byte AND 1 \<noteq> 0),
               layer = drop_bit 4 byte AND 3,
               row = drop_bit 2 byte AND 3,
               column = drop_bit 0 byte AND 3\<rparr>
      in read_key_action_loop s from' byte k)"

text \<open>
  \<open>write_key_action\<close>: the first \<open>for\<close> loop drops up to three leading pairs of bits
  that are zero in all of layer, row and column; the second writes one byte for each
  remaining pair. The counter \<open>i\<close> stays within 0..4.
\<close>

function write_key_action_skip :: "nat \<Rightarrow> key_action_t \<Rightarrow> nat \<times> key_action_t" where
  "write_key_action_skip i k =
     (if i < 3 \<and> (layer k OR row k OR column k) AND 0xC0 = 0
      then write_key_action_skip (i + 1) (shift_pairs k)
      else (i, k))"
  by pat_completeness auto
termination
  by (relation "measure (\<lambda>(i, k). 3 - i)") auto

function write_key_action_emit ::
  "state \<Rightarrow> addr \<Rightarrow> nat \<Rightarrow> byte \<Rightarrow> key_action_t \<Rightarrow> state" where
  "write_key_action_emit s to i byte k =
     (if i < 4 then
        (let byte' = byte OR push_bit 7 (if i < 3 then 1 else 0)
                          OR drop_bit 2 (layer k AND 0xC0)
                          OR drop_bit 4 (row k AND 0xC0)
                          OR drop_bit 6 (column k AND 0xC0);
             s' = eeprom__write s to byte'
         in write_key_action_emit s' (to + 1) (i + 1) (push_bit 6 1) (shift_pairs k))
      else s)"
  by pat_completeness auto
termination
  by (relation "measure (\<lambda>(s, to, i, byte, k). 4 - i)") auto

definition write_key_action :: "options \<Rightarrow> state \<Rightarrow> addr \<Rightarrow> key_action_t \<Rightarrow> byte \<times> state" where
  "write_key_action opts s to k =
     (if EEMEM_END opts - 4 < to then (0, s)
      else
        (let (i, k') = write_key_action_skip 0 k;
             written = (of_nat (4 - i) :: byte);
             byte = push_bit 6 (if pressed k then 1 else 0)
         in (written, write_key_action_emit s to i byte k')))"

section \<open>Searching the macros\<close>

text \<open>
  The three search loops walk from macro to macro by adding the length byte of the
  current macro to the current address, until they meet the type they look for. Nothing
  bounds them, so each is a partial function: \<open>None\<close> is a search that never ends.
\<close>

partial_function (option) find_key_action_loop ::
  "state \<Rightarrow> key_action_t \<Rightarrow> addr \<Rightarrow> addr option" where
  "find_key_action_loop s k current =
     (let type = eeprom__read s current in
      if type \<noteq> TYPE_END then
        (if type = TYPE_VALID_MACRO then
           (case read_key_action s (current + 2) of
              None \<Rightarrow> None
            | Some k_current \<Rightarrow>
                if pressed k = pressed k_current
                   \<and> layer k = layer k_current
                   \<and> row k = row k_current
                   \<and> column k = column k_current
                then Some current
                else find_key_action_loop s k (current + ucast (eeprom__read s (current + 1))))
         else find_key_action_loop s k (current + ucast (eeprom__read s (current + 1))))
      else Some 0)"

definition find_key_action :: "options \<Rightarrow> state \<Rightarrow> key_action_t \<Rightarrow> addr option" where
  "find_key_action opts s k = find_key_action_loop s k (EEMEM_MACROS_START opts)"

partial_function (option) find_next_deleted :: "state \<Rightarrow> addr \<Rightarrow> addr option" where
  "find_next_deleted s start =
     (let type = eeprom__read s start in
      if type \<noteq> TYPE_END then
        (if type = TYPE_DELETED then Some start
         else find_next_deleted s (start + ucast (eeprom__read s (start + 1))))
      else Some 0)"

partial_function (option) find_next_nondeleted :: "state \<Rightarrow> addr \<Rightarrow> addr option" where
  "find_next_nondeleted s start =
     (let type = eeprom__read s start in
      if type = TYPE_DELETED \<or> type = TYPE_CONTINUED
      then find_next_nondeleted s (start + ucast (eeprom__read s (start + 1)))
      else Some start)"

section \<open>Compressing the macros\<close>

text \<open>
  \<open>compress_copy\<close> is the inner \<open>for\<close> loop of \<open>compress\<close>, which copies the bytes
  from \<open>to_compress\<close> up to \<open>next\<close> in pieces of at most \<open>UINT8_MAX\<close> bytes;
  \<open>compress_iteration\<close> is the body of the \<open>while\<close> loop and \<open>compress_loop\<close> the
  loop itself. All reads see the EEPROM as it was when \<open>compress\<close> was called, since
  the writes are only queued.
\<close>

function compress_copy :: "state \<Rightarrow> addr \<Rightarrow> addr \<Rightarrow> addr \<Rightarrow> state \<times> addr \<times> addr" where
  "compress_copy s to_overwrite to_compress next =
     (let len = next - to_compress in
      if len \<noteq> 0 then
        (let len' = (if len > 0xFF then 0xFF else len);
             s' = eeprom__copy s to_overwrite to_compress (ucast len')
         in compress_copy s' (to_overwrite + len') (to_compress + len') next)
      else (s, to_overwrite, to_compress))"
  by pat_completeness auto
termination
proof (relation "measure (\<lambda>(s, to_overwrite, to_compress, next). unat (next - to_compress))")
  show "wf (measure (\<lambda>(s, to_overwrite, to_compress, next). unat (next - to_compress)))"
    by simp
next
  fix s :: state and to_overwrite to_compress "next" len len' :: addr and s' :: state
  assume len: "len = next - to_compress" and nz: "len \<noteq> 0"
    and len': "len' = (if 0xFF < len then 0xFF else len)"
  have eq: "next - (to_compress + len') = len - len'"
    by (simp add: len)
  have le: "len' \<le> len" and pos: "0 < unat len'"
    using nz by (auto simp: len' unat_gt_0)
  from le have "unat (len - len') = unat len - unat len'"
    by (simp add: unat_sub)
  moreover from le have "unat len' \<le> unat len"
    by (simp add: word_le_nat_alt)
  ultimately have "unat (len - len') < unat len"
    using pos by arith
  then show "((s', to_overwrite + len', to_compress + len', next),
              (s, to_overwrite, to_compress, next))
             \<in> measure (\<lambda>(s, to_overwrite, to_compress, next). unat (next - to_compress))"
    by (simp add: eq len)
qed

definition compress_iteration :: "state \<Rightarrow> addr \<Rightarrow> addr \<Rightarrow> (state \<times> addr \<times> addr) option" where
  "compress_iteration s to_overwrite next =
     (case find_next_nondeleted s next of
        None \<Rightarrow> None
      | Some to_compress \<Rightarrow>
          (case find_next_deleted s to_compress of
             None \<Rightarrow> None
           | Some nd \<Rightarrow>
               (let next' = (if nd = 0 then new_end_macro s else nd);
                    type = eeprom__read s to_compress;
                    type_location = to_overwrite;
                    (s1, to_overwrite', to_compress') =
                       compress_copy s (to_overwrite + 1) (to_compress + 1) next';
                    s2 = (if next' \<noteq> new_end_macro s
                          then eeprom__write s1 to_overwrite' TYPE_END else s1);
                    s3 = eeprom__write s2 type_location type
                in Some (s3, to_overwrite', next'))))"

partial_function (option) compress_loop :: "state \<Rightarrow> addr \<Rightarrow> addr \<Rightarrow> state option" where
  "compress_loop s to_overwrite next =
     (if next \<noteq> new_end_macro s then
        (case compress_iteration s to_overwrite next of
           None \<Rightarrow> None
         | Some (s', to_overwrite', next') \<Rightarrow> compress_loop s' to_overwrite' next')
      else Some s)"

definition compress :: "options \<Rightarrow> state \<Rightarrow> state option" where
  "compress opts s =
     (case find_next_deleted s (EEMEM_MACROS_START opts) of
        None \<Rightarrow> None
      | Some to_overwrite \<Rightarrow>
          if to_overwrite = 0 then Some s
          else
            (case find_next_nondeleted s to_overwrite of
               None \<Rightarrow> None
             | Some next \<Rightarrow>
                 compress_loop (eeprom__write s to_overwrite TYPE_END) to_overwrite next))"

declare write_key_action_emit.simps [simp del]
declare write_key_action_skip.simps [simp del]
declare compress_copy.simps [simp del]

section \<open>Definitions for stating the properties\<close>

subsection \<open>Encoded key-actions\<close>

text \<open>
  \<open>emit_byte\<close> is the byte the second loop of \<open>write_key_action\<close> writes for the
  current (most significant) pair of bits.
\<close>

definition emit_byte :: "byte \<Rightarrow> bool \<Rightarrow> key_action_t \<Rightarrow> byte" where
  "emit_byte h0 cont k = h0 OR push_bit 7 (if cont then 1 else 0)
                          OR drop_bit 2 (layer k AND 0xC0)
                          OR drop_bit 4 (row k AND 0xC0)
                          OR drop_bit 6 (column k AND 0xC0)"

text \<open>
  The encoding as the specification words it. Layer, row and column are four pairs of
  bits each; pair 0 is the most significant.
  \<open>leading_zero_pairs\<close> counts the leading pairs, at most three, that are zero in all
  three fields. \<open>key_action_bytes\<close> is the byte sequence of the specification: one byte
  for each remaining pair, bit 7 set on all but the last, bit 6 holding \<open>pressed\<close> in the
  first byte and 1 afterwards.
\<close>

definition bit_pair :: "byte \<Rightarrow> nat \<Rightarrow> byte" where
  "bit_pair x j = drop_bit (6 - 2 * j) x AND 3"

definition pair_zero :: "key_action_t \<Rightarrow> nat \<Rightarrow> bool" where
  "pair_zero k j = (bit_pair (layer k) j OR bit_pair (row k) j OR bit_pair (column k) j = 0)"

definition leading_zero_pairs :: "key_action_t \<Rightarrow> nat" where
  "leading_zero_pairs k = length (takeWhile (pair_zero k) [0, 1, 2])"

definition key_action_byte :: "key_action_t \<Rightarrow> nat \<Rightarrow> nat \<Rightarrow> byte" where
  "key_action_byte k j0 j =
     push_bit 7 (if j < 3 then 1 else 0)
     OR push_bit 6 (if j = j0 then (if pressed k then 1 else 0) else 1)
     OR push_bit 4 (bit_pair (layer k) j)
     OR push_bit 2 (bit_pair (row k) j)
     OR bit_pair (column k) j"

definition key_action_bytes :: "key_action_t \<Rightarrow> byte list" where
  "key_action_bytes k = map (key_action_byte k (leading_zero_pairs k)) [leading_zero_pairs k..<4]"

subsection \<open>Well-formed macro areas\<close>

text \<open>
  Positions in the EEPROM are counted as natural numbers; \<open>ptr a\<close> is the pointer to
  byte \<open>a\<close>. A macro at position \<open>a\<close> has its type in byte \<open>a\<close> and its length in
  byte \<open>a + 1\<close>. \<open>seg m a xs b\<close> says that the bytes from \<open>a\<close> up to \<open>b\<close> are a
  row of macros that begin at the positions \<open>xs\<close>, each of type deleted, valid or
  continued, each with a length of at least 2 (type and length byte are counted), and
  each followed at once by the next. A macro area is well formed when such a row
  starts at \<open>EEMEM_MACROS_START\<close>, five bytes after \<open>EEMEM_START\<close>, and is followed
  by the one macro of type end, at a position \<open>e\<close> that is not beyond \<open>EEMEM_END\<close>;
  the preprocessor check at the top of the file bounds \<open>EEMEM_END\<close> by 1023.
\<close>

definition ptr :: "nat \<Rightarrow> addr" where
  "ptr a = of_nat a"

definition rec_tag :: "(addr \<Rightarrow> byte) \<Rightarrow> nat \<Rightarrow> byte" where
  "rec_tag m a = m (ptr a)"

definition rec_len :: "(addr \<Rightarrow> byte) \<Rightarrow> nat \<Rightarrow> nat" where
  "rec_len m a = unat (m (ptr a + 1))"

fun seg :: "(addr \<Rightarrow> byte) \<Rightarrow> nat \<Rightarrow> nat list \<Rightarrow> nat \<Rightarrow> bool" where
  "seg m a [] b = (a = b)"
| "seg m a (x # xs) b =
     (x = a
      \<and> (rec_tag m a = TYPE_DELETED \<or> rec_tag m a = TYPE_VALID_MACRO \<or> rec_tag m a = TYPE_CONTINUED)
      \<and> 2 \<le> rec_len m a
      \<and> seg m (a + rec_len m a) xs b)"

definition macros_start :: "options \<Rightarrow> nat" where
  "macros_start opts = unat (EEMEM_START opts) + 5"

definition macro_area :: "options \<Rightarrow> (addr \<Rightarrow> byte) \<Rightarrow> nat list \<Rightarrow> nat \<Rightarrow> bool" where
  "macro_area opts m xs e =
     (seg m (macros_start opts) xs e
      \<and> rec_tag m e = TYPE_END
      \<and> e \<le> unat (EEMEM_END opts)
      \<and> unat (EEMEM_END opts) \<le> 1023)"

text \<open>
  The key-action of a valid macro is readable when one of the bytes of its data section
  has the continuation bit clear.
\<close>

definition trigger_ok :: "(addr \<Rightarrow> byte) \<Rightarrow> nat \<Rightarrow> bool" where
  "trigger_ok m x = (\<exists>j\<in>{2..<rec_len m x}. drop_bit 7 (m (ptr (x + j))) = 0)"

text \<open>
  The addresses a queued operation writes to, and which operations are copies.
\<close>

fun op_within :: "nat \<Rightarrow> nat \<Rightarrow> nvm_op \<Rightarrow> bool" where
  "op_within lo hi (Write a b) = (lo \<le> unat a \<and> unat a < hi)"
| "op_within lo hi (Copy t f l) = (lo \<le> unat t \<and> unat t + unat l \<le> hi)"

fun is_copy :: "nvm_op \<Rightarrow> bool" where
  "is_copy (Copy t f l) = True"
| "is_copy (Write a b) = False"

text \<open>
  \<open>chain_within a0 e M\<close>: in the memory \<open>M\<close> a row of macros starts at \<open>a0\<close> and
  ends in a macro of type end at or before \<open>e\<close>; \<open>compact_within\<close> adds that none of
  the macros is deleted.
\<close>

definition chain_within :: "nat \<Rightarrow> nat \<Rightarrow> (addr \<Rightarrow> byte) \<Rightarrow> bool" where
  "chain_within a0 e M = (\<exists>zs e'. seg M a0 zs e' \<and> rec_tag M e' = TYPE_END \<and> e' \<le> e)"

definition compact_within :: "nat \<Rightarrow> nat \<Rightarrow> (addr \<Rightarrow> byte) \<Rightarrow> bool" where
  "compact_within a0 e M =
     (\<exists>zs e'. seg M a0 zs e' \<and> rec_tag M e' = TYPE_END \<and> e' \<le> e
        \<and> (\<forall>z\<in>set zs. rec_tag M z \<noteq> TYPE_DELETED))"

text \<open>
  The order of writes in which the tag of a copied macro, written at \<open>type_location\<close>,
  would come before every copy of its remaining bytes.
\<close>

definition tag_before_copies :: "addr \<Rightarrow> byte \<Rightarrow> nvm_op list \<Rightarrow> bool" where
  "tag_before_copies type_location type ops =
     (\<forall>i<length ops. \<forall>j<length ops.
        ops ! i = Write type_location type \<and> is_copy (ops ! j) \<longrightarrow> i < j)"

text \<open>
  The order in which one iteration of the loop of \<open>compress\<close> queues its operations:
  every copy comes before the write of the tag at \<open>type_location\<close>.
\<close>

definition copies_before_tag :: "addr \<Rightarrow> nvm_op list \<Rightarrow> bool" where
  "copies_before_tag type_location ops =
     (\<forall>i<length ops. \<forall>j<length ops.
        (\<exists>b. ops ! i = Write type_location b) \<and> is_copy (ops ! j) \<longrightarrow> j < i)"

text \<open>
  One iteration of the loop of \<open>compress\<close>, described on the macros \<open>ys\<close> that lie
  from \<open>next\<close> up to the end macro at \<open>e\<close>. \<open>live_from\<close> drops the leading macros
  of type deleted or continued; the span to copy starts at the first macro left
  (\<open>span_start\<close>, the end macro when none is left) and ends before the first deleted
  macro after it (\<open>span_end\<close>, one byte past the end macro when there is none).
  \<open>copy_chunks dst src n\<close> are the copies of \<open>n\<close> bytes from \<open>src\<close> to \<open>dst\<close> in pieces
  of at most 255 bytes, from the lowest address up.
\<close>

fun copy_chunks :: "nat \<Rightarrow> nat \<Rightarrow> nat \<Rightarrow> nvm_op list" where
  "copy_chunks dst src n =
     (if n = 0 then []
      else Copy (ptr dst) (ptr src) (of_nat (min n 255))
             # copy_chunks (dst + min n 255) (src + min n 255) (n - min n 255))"

declare copy_chunks.simps [simp del]

definition live_from :: "(addr \<Rightarrow> byte) \<Rightarrow> nat list \<Rightarrow> nat list" where
  "live_from m ys = dropWhile (\<lambda>y. rec_tag m y = TYPE_DELETED \<or> rec_tag m y = TYPE_CONTINUED) ys"

definition span_start :: "(addr \<Rightarrow> byte) \<Rightarrow> nat list \<Rightarrow> nat \<Rightarrow> nat" where
  "span_start m ys e = hd (live_from m ys @ [e])"

definition span_end :: "(addr \<Rightarrow> byte) \<Rightarrow> nat list \<Rightarrow> nat \<Rightarrow> nat" where
  "span_end m ys e =
     (case find (\<lambda>y. rec_tag m y = TYPE_DELETED) (live_from m ys) of
        Some d \<Rightarrow> d | None \<Rightarrow> Suc e)"

subsection \<open>Example data\<close>

text \<open>
  A block of EEPROM from 0 to 1023. \<open>area_example\<close> holds a valid macro at 5, a
  deleted one at 8, a valid one at 10, a deleted one at 14 and the end macro at 17;
  \<open>area_compact\<close> holds the two valid macros alone.
\<close>

definition opts0 :: options where
  "opts0 = \<lparr>OPT__EEPROM__EEPROM_MACRO__START = 0, OPT__EEPROM__EEPROM_MACRO__END = 1023\<rparr>"

definition blank :: state where
  "blank = \<lparr>eeprom = (\<lambda>a. 0xFF), queue = [], end_macro = 5, new_end_macro = 6\<rparr>"

definition k_example :: key_action_t where
  "k_example = \<lparr>pressed = False, layer = 0b00000100, row = 0b00011001, column = 0b00100011\<rparr>"

definition area_example :: "addr \<Rightarrow> byte" where
  "area_example =
     (\<lambda>a. 0xFF)(5 := 0x01, 6 := 0x03, 7 := 0x05,
                 8 := 0x00, 9 := 0x02,
                 10 := 0x01, 11 := 0x04, 12 := 0x46, 13 := 0x07,
                 14 := 0x00, 15 := 0x03, 16 := 0xAA)"

definition store_example :: state where
  "store_example = \<lparr>eeprom = area_example, queue = [], end_macro = 17, new_end_macro = 18\<rparr>"

definition area_compact :: "addr \<Rightarrow> byte" where
  "area_compact =
     (\<lambda>a. 0xFF)(5 := 0x01, 6 := 0x03, 7 := 0x05,
                 8 := 0x01, 9 := 0x04, 10 := 0x46, 11 := 0x07)"

definition store_compact :: state where
  "store_compact = \<lparr>eeprom = area_compact, queue = [], end_macro = 12, new_end_macro = 13\<rparr>"

text \<open>
  \<open>area_long\<close> holds a deleted macro at 5, a valid macro of 255 bytes at 7 with a
  continued macro of 50 bytes at 262, and the end macro at 312; in \<open>store_long\<close> the
  first write of \<open>compress\<close> is already queued.
\<close>

definition area_long :: "addr \<Rightarrow> byte" where
  "area_long =
     (\<lambda>a. 0xFF)(5 := 0x00, 6 := 0x02,
                 7 := 0x01, 8 := 0xFF,
                 262 := 0x02, 263 := 0x32,
                 312 := 0xFF)"

definition store_long :: state where
  "store_long = \<lparr>eeprom = area_long, queue = [Write 5 TYPE_END], end_macro = 312, new_end_macro = 313\<rparr>"

section \<open>Codec lemmas\<close>

lemma all8: "(\<forall>n<8. P n) = (P 0 \<and> P 1 \<and> P 2 \<and> P 3 \<and> P 4 \<and> P 5 \<and> P 6 \<and> P (7::nat))"
proof (intro iffI)
  assume "\<forall>n<8. P n" then show "P 0 \<and> P 1 \<and> P 2 \<and> P 3 \<and> P 4 \<and> P 5 \<and> P 6 \<and> P 7" by simp
next
  assume c: "P 0 \<and> P 1 \<and> P 2 \<and> P 3 \<and> P 4 \<and> P 5 \<and> P 6 \<and> P 7"
  show "\<forall>n<8. P n"
  proof (intro allI impI)
    fix n :: nat assume "n < 8"
    then have "n \<in> {0, 1, 2, 3, 4, 5, 6, 7}" by auto
    with c show "P n" by auto
  qed
qed

lemma byte_eq_iff: "(a = (b::8 word)) = (\<forall>n<8. bit a n = bit b n)"
  by (auto simp: bit_eq_iff dest: bit_imp_le_length)

lemma byte_bit_out: "8 \<le> n \<Longrightarrow> bit (a::8 word) n = False"
  by (auto dest: bit_imp_le_length)

lemma emit3: "write_key_action_emit s to 3 b k = s\<lparr>queue := queue s @ [Write to (emit_byte b False k)]\<rparr>"
  by (simp add: write_key_action_emit.simps emit_byte_def eeprom__write_def Let_def)

lemma emit2: "write_key_action_emit s to 2 b k = s\<lparr>queue := queue s @ [Write to (emit_byte b True k), Write (to+1) (emit_byte 64 False (shift_pairs k))]\<rparr>"
  by (simp add: write_key_action_emit.simps emit_byte_def eeprom__write_def Let_def)

lemma emit1: "write_key_action_emit s to 1 b k = s\<lparr>queue := queue s @ [Write to (emit_byte b True k), Write (to+1) (emit_byte 64 True (shift_pairs k)),
   Write (to+2) (emit_byte 64 False (shift_pairs (shift_pairs k)))]\<rparr>"
  by (simp add: write_key_action_emit.simps emit_byte_def eeprom__write_def Let_def)

lemma emit0: "write_key_action_emit s to 0 b k = s\<lparr>queue := queue s @ [Write to (emit_byte b True k), Write (to+1) (emit_byte 64 True (shift_pairs k)),
   Write (to+2) (emit_byte 64 True (shift_pairs (shift_pairs k))), Write (to+3) (emit_byte 64 False (shift_pairs (shift_pairs (shift_pairs k))))]\<rparr>"
  by (simp add: write_key_action_emit.simps emit_byte_def eeprom__write_def Let_def)

lemma apply_ops_append: "apply_ops (xs @ ys) m = apply_ops ys (apply_ops xs m)"
  by (simp add: apply_ops_def)

lemma read_loop_stop: "drop_bit 7 b = 0 \<Longrightarrow> read_key_action_loop s a b k = Some k"
  by (subst read_key_action_loop.simps) simp

lemma read_loop_step: "drop_bit 7 b \<noteq> 0 \<Longrightarrow> read_key_action_loop s a b k =
   read_key_action_loop s (a + 1) (eeprom s a)
     (k\<lparr>layer := push_bit 2 (layer k) OR (drop_bit 4 (eeprom s a) AND 3),
      row := push_bit 2 (row k) OR (drop_bit 2 (eeprom s a) AND 3),
      column := push_bit 2 (column k) OR (eeprom s a AND 3)\<rparr>)"
  by (subst read_key_action_loop.simps) (simp add: Let_def shift_pairs_def eeprom__read_def)

lemma emit_cont: "(drop_bit 7 (emit_byte h c k) = 0) = (\<not> c)" if "h = 0 \<or> h = 64"
  using that by (elim disjE; hypsubst) (simp_all add: emit_byte_def byte_eq_iff all8 bit_simps byte_bit_out)

lemma emit_layer: "drop_bit 4 (emit_byte h c k) AND 3 = drop_bit 6 (layer k)" if "h = 0 \<or> h = 64"
  using that by (elim disjE; hypsubst) (simp_all add: emit_byte_def byte_eq_iff all8 bit_simps byte_bit_out)
lemma emit_row: "drop_bit 2 (emit_byte h c k) AND 3 = drop_bit 6 (row k)" if "h = 0 \<or> h = 64"
  using that by (elim disjE; hypsubst) (simp_all add: emit_byte_def byte_eq_iff all8 bit_simps byte_bit_out)
lemma emit_column: "(emit_byte h c k) AND 3 = drop_bit 6 (column k)" if "h = 0 \<or> h = 64"
  using that by (elim disjE; hypsubst) (simp_all add: emit_byte_def byte_eq_iff all8 bit_simps byte_bit_out)
lemma emit_pressed: "(drop_bit 6 (emit_byte (push_bit 6 (if p then 1 else 0)) c k) AND 1 \<noteq> 0) = p" 
  by (auto simp: emit_byte_def byte_eq_iff all8 bit_simps byte_bit_out)

lemma shift_pairs_simps [simp]:
  "pressed (shift_pairs k) = pressed k"
  "layer (shift_pairs k) = push_bit 2 (layer k)"
  "row (shift_pairs k) = push_bit 2 (row k)"
  "column (shift_pairs k) = push_bit 2 (column k)"
  by (simp_all add: shift_pairs_def)

lemma Suc_numerals: "Suc (Suc 0) = 2" "Suc (Suc (Suc 0)) = 3"
  by simp_all

lemma or3_zero: "(a OR b OR c) AND (m::byte) = 0 \<longleftrightarrow> a AND m = 0 \<and> b AND m = 0 \<and> c AND m = 0"
  by (auto simp add: byte_eq_iff bit_simps)

lemma skip_cases:
  "write_key_action_skip 0 k = (i, k') \<Longrightarrow>
     (i = 0 \<and> k' = k) \<or>
     (i = 1 \<and> k' = shift_pairs k \<and> (layer k OR row k OR column k) AND 0xC0 = 0) \<or>
     (i = 2 \<and> k' = shift_pairs (shift_pairs k) \<and> (layer k OR row k OR column k) AND 0xC0 = 0
         \<and> (layer (shift_pairs k) OR row (shift_pairs k) OR column (shift_pairs k)) AND 0xC0 = 0) \<or>
     (i = 3 \<and> k' = shift_pairs (shift_pairs (shift_pairs k)) \<and> (layer k OR row k OR column k) AND 0xC0 = 0
         \<and> (layer (shift_pairs k) OR row (shift_pairs k) OR column (shift_pairs k)) AND 0xC0 = 0
         \<and> (layer (shift_pairs (shift_pairs k)) OR row (shift_pairs (shift_pairs k)) OR column (shift_pairs (shift_pairs k))) AND 0xC0 = 0)"
  by (simp add: write_key_action_skip.simps split: if_splits)

lemma hdr_cases: "push_bit 6 (if p then 1 else 0) = (0::byte) \<or> push_bit 6 (if p then 1 else 0) = (64::byte)"
  by simp

lemmas emit_first = emit_cont [OF hdr_cases] emit_layer [OF hdr_cases] emit_row [OF hdr_cases] emit_column [OF hdr_cases]
lemmas emit_next = emit_cont [of 64, simplified] emit_layer [of 64, simplified] emit_row [of 64, simplified] emit_column [of 64, simplified]

lemma flush_eeprom_append: "eeprom (flush (s\<lparr>queue := queue s @ ws\<rparr>)) = apply_ops ws (apply_ops (queue s) (eeprom s))"
  by (simp add: flush_def apply_ops_append)

lemma key_action_eq: "(\<lparr>pressed = p, layer = l, row = r, column = c\<rparr> = k) = (p = pressed k \<and> l = layer k \<and> r = row k \<and> c = column k)"
  by (cases k) auto

lemma rt3:
  assumes "(layer k OR row k OR column k) AND 0xC0 = 0"
   "(layer (shift_pairs k) OR row (shift_pairs k) OR column (shift_pairs k)) AND 0xC0 = 0"
   "(layer (shift_pairs (shift_pairs k)) OR row (shift_pairs (shift_pairs k)) OR column (shift_pairs (shift_pairs k))) AND 0xC0 = 0"
  shows "read_key_action (flush (write_key_action_emit s to 3 (push_bit 6 (if pressed k then 1 else 0)) (shift_pairs (shift_pairs (shift_pairs k))))) to = Some k"
  using assms
  apply (simp only: emit3 read_key_action_def Let_def eeprom__read_def flush_eeprom_append)
  apply (simp add: flush_eeprom_append apply_ops_def emit_first emit_pressed read_loop_stop or3_zero)
  apply (simp add: key_action_eq byte_eq_iff all8 bit_simps byte_bit_out Suc_numerals)
  done

lemma rt2:
  assumes "(layer k OR row k OR column k) AND 0xC0 = 0"
   "(layer (shift_pairs k) OR row (shift_pairs k) OR column (shift_pairs k)) AND 0xC0 = 0"
  shows "read_key_action (flush (write_key_action_emit s to 2 (push_bit 6 (if pressed k then 1 else 0)) (shift_pairs (shift_pairs k)))) to = Some k"
  using assms
  apply (simp only: emit2 read_key_action_def Let_def eeprom__read_def flush_eeprom_append)
  apply (simp add: flush_eeprom_append apply_ops_def emit_first emit_next emit_pressed read_loop_stop read_loop_step or3_zero)
  apply (simp add: key_action_eq byte_eq_iff all8 bit_simps byte_bit_out Suc_numerals)
  done

lemma rt1:
  assumes "(layer k OR row k OR column k) AND 0xC0 = 0"
  shows "read_key_action (flush (write_key_action_emit s to 1 (push_bit 6 (if pressed k then 1 else 0)) (shift_pairs k))) to = Some k"
  using assms
  apply (simp only: emit1 read_key_action_def Let_def eeprom__read_def flush_eeprom_append)
  apply (simp add: flush_eeprom_append apply_ops_def emit_first emit_next emit_pressed read_loop_stop read_loop_step or3_zero)
  apply (simp add: key_action_eq byte_eq_iff all8 bit_simps byte_bit_out Suc_numerals)
  done

lemma rt0:
  shows "read_key_action (flush (write_key_action_emit s to 0 (push_bit 6 (if pressed k then 1 else 0)) k)) to = Some k"
  apply (simp only: emit0 read_key_action_def Let_def eeprom__read_def flush_eeprom_append)
  apply (simp add: flush_eeprom_append apply_ops_def emit_first emit_next emit_pressed read_loop_stop read_loop_step or3_zero)
  apply (simp add: key_action_eq byte_eq_iff all8 bit_simps byte_bit_out Suc_numerals)
  done

text \<open>
  C1 (codec round trip). Whenever \<open>write_key_action\<close> succeeds for a key-action
  (any \<open>pressed\<close>, any layer, row and column in 0..255), reading a key-action back with
  \<open>read_key_action\<close> from the address of the first byte written, once the queued
  writes have been applied, ends and returns the original key-action.
\<close>

theorem codec_round_trip:
  assumes w: "write_key_action opts s to k = (written, s')" and ok: "written \<noteq> 0"
  shows "read_key_action (flush s') to = Some k"
proof -
  obtain i k' where sk: "write_key_action_skip 0 k = (i, k')"
    by (cases "write_key_action_skip 0 k")
  from w ok sk have s': "s' = write_key_action_emit s to i (push_bit 6 (if pressed k then 1 else 0)) k'"
    by (auto simp: write_key_action_def Let_def split: if_splits)
  from skip_cases [OF sk] show ?thesis
    unfolding s' using rt0 [of s to k] rt1 [of k s to] rt2 [of k s to] rt3 [of k s to]
    by (elim disjE conjE) simp_all
qed

lemma pair_zero_0: "pair_zero k 0 = ((layer k OR row k OR column k) AND 0xC0 = 0)"
  by (simp add: pair_zero_def bit_pair_def byte_eq_iff all8 bit_simps byte_bit_out Suc_numerals)

lemma pair_zero_1: "pair_zero k (Suc 0) = ((layer (shift_pairs k) OR row (shift_pairs k) OR column (shift_pairs k)) AND 0xC0 = 0)"
  by (simp add: pair_zero_def bit_pair_def byte_eq_iff all8 bit_simps byte_bit_out Suc_numerals)

lemma pair_zero_2: "pair_zero k 2 = ((layer (shift_pairs (shift_pairs k)) OR row (shift_pairs (shift_pairs k)) OR column (shift_pairs (shift_pairs k))) AND 0xC0 = 0)"
  by (simp add: pair_zero_def bit_pair_def byte_eq_iff all8 bit_simps byte_bit_out Suc_numerals)

lemma leading_zero_pairs_if:
  "leading_zero_pairs k =
     (if pair_zero k 0 then if pair_zero k (Suc 0) then if pair_zero k 2 then 3 else 2 else 1 else 0)"
  by (simp add: leading_zero_pairs_def)

lemma skip3: "write_key_action_skip 3 k = (3, k)"
  by (subst write_key_action_skip.simps) simp

lemma skip2: "write_key_action_skip 2 k =
    (if (layer k OR row k OR column k) AND 0xC0 = 0 then (3, shift_pairs k) else (2, k))"
  by (subst write_key_action_skip.simps) (simp add: skip3)

lemma skip1: "write_key_action_skip (Suc 0) k =
    (if (layer k OR row k OR column k) AND 0xC0 = 0 then write_key_action_skip 2 (shift_pairs k) else (1, k))"
  by (subst write_key_action_skip.simps) (simp add: Suc_numerals)

lemma skip0: "write_key_action_skip 0 k =
    (if (layer k OR row k OR column k) AND 0xC0 = 0 then write_key_action_skip (Suc 0) (shift_pairs k) else (0, k))"
  by (subst write_key_action_skip.simps) simp

lemma skip_unrolled:
  "write_key_action_skip 0 k =
     (if pair_zero k 0 then
        if pair_zero k (Suc 0) then
          if pair_zero k 2 then (3, shift_pairs (shift_pairs (shift_pairs k)))
          else (2, shift_pairs (shift_pairs k))
        else (1, shift_pairs k)
      else (0, k))"
  unfolding pair_zero_0 pair_zero_1 pair_zero_2 skip0 skip1 skip2
  by simp

lemma leading_zero_pairs_le: "leading_zero_pairs k \<le> 3"
proof -
  have "length (takeWhile (pair_zero k) [0, 1, 2]) \<le> length [0::nat, 1, 2]"
    by (rule length_takeWhile_le)
  then show ?thesis by (simp add: leading_zero_pairs_def)
qed

lemmas emit1_Suc = emit1 [unfolded One_nat_def]

lemma upt_4: "[0..<4] = [0, 1, 2, 3]" "[Suc 0..<4] = [1, 2, 3]" "[2..<4] = [2, 3]" "[3..<4] = [3]"
  "[0..<3] = [0, 1, 2]" "[0..<2] = [0, 1]" "[0..<Suc 0] = [0]"
  by (simp_all add: upt_rec)

lemma encode_bytes:
  assumes room: "\<not> EEMEM_END opts - 4 < to"
  shows "write_key_action opts s to k =
           (of_nat (4 - leading_zero_pairs k),
            s\<lparr>queue := queue s @ map (\<lambda>j. Write (to + of_nat j) (key_action_bytes k ! j))
                                      [0..<4 - leading_zero_pairs k]\<rparr>)"
proof -
  consider (z0) "\<not> pair_zero k 0"
    | (z1) "pair_zero k 0" "\<not> pair_zero k (Suc 0)"
    | (z2) "pair_zero k 0" "pair_zero k (Suc 0)" "\<not> pair_zero k 2"
    | (z3) "pair_zero k 0" "pair_zero k (Suc 0)" "pair_zero k 2"
    by blast
  then show ?thesis
  proof cases
    case z0
    then show ?thesis using room
      by (simp add: write_key_action_def skip_unrolled leading_zero_pairs_if emit0 upt_4 key_action_bytes_def)
         (simp add: emit_byte_def key_action_byte_def bit_pair_def byte_eq_iff all8 bit_simps byte_bit_out Suc_numerals)
  next
    case z1
    then show ?thesis using room
      by (simp add: write_key_action_def skip_unrolled leading_zero_pairs_if emit1_Suc upt_4 key_action_bytes_def)
         (simp add: emit_byte_def key_action_byte_def bit_pair_def byte_eq_iff all8 bit_simps byte_bit_out Suc_numerals)
  next
    case z2
    then show ?thesis using room
      by (simp add: write_key_action_def skip_unrolled leading_zero_pairs_if emit2 upt_4 key_action_bytes_def)
         (simp add: emit_byte_def key_action_byte_def bit_pair_def byte_eq_iff all8 bit_simps byte_bit_out Suc_numerals)
  next
    case z3
    then show ?thesis using room
      by (simp add: write_key_action_def skip_unrolled leading_zero_pairs_if emit3 upt_4 key_action_bytes_def)
         (simp add: emit_byte_def key_action_byte_def bit_pair_def byte_eq_iff all8 bit_simps byte_bit_out Suc_numerals)
  qed
qed

lemma length_key_action_bytes: "length (key_action_bytes k) = 4 - leading_zero_pairs k"
  by (simp add: key_action_bytes_def)

text \<open>
  C4 (encode length). A successful \<open>write_key_action\<close> returns \<open>4 - s\<close> and queues
  exactly \<open>4 - s\<close> writes, at consecutive addresses from \<open>to\<close>, of the bytes of the
  specification, where \<open>s \<le> 3\<close> is the number of leading pairs of bits that are zero in
  layer, row and column together; so between 1 and 4 bytes. The all-zero released
  key-action is written as the single byte 0, and the worked example of the layout
  comment as the three bytes \<open>0b10000110\<close>, \<open>0b11011000\<close>, \<open>0b01000111\<close>.
\<close>

theorem encode_length:
  assumes room: "\<not> EEMEM_END opts - 4 < to"
  shows "write_key_action opts s to k =
           (of_nat (4 - leading_zero_pairs k),
            s\<lparr>queue := queue s @ map (\<lambda>j. Write (to + of_nat j) (key_action_bytes k ! j))
                                      [0..<4 - leading_zero_pairs k]\<rparr>)
       \<and> leading_zero_pairs k \<le> 3
       \<and> length (key_action_bytes k) = 4 - leading_zero_pairs k
       \<and> unat (fst (write_key_action opts s to k)) = 4 - leading_zero_pairs k
       \<and> 1 \<le> unat (fst (write_key_action opts s to k))
       \<and> unat (fst (write_key_action opts s to k)) \<le> 4
       \<and> write_key_action opts s to \<lparr>pressed = False, layer = 0, row = 0, column = 0\<rparr>
            = (1, s\<lparr>queue := queue s @ [Write to 0]\<rparr>)
       \<and> write_key_action opts s to
            \<lparr>pressed = False, layer = 0b00000100, row = 0b00011001, column = 0b00100011\<rparr>
            = (3, s\<lparr>queue := queue s @ [Write to 0b10000110, Write (to + 1) 0b11011000,
                                         Write (to + 2) 0b01000111]\<rparr>)"
proof -
  note eb = encode_bytes [OF room]
  have le: "leading_zero_pairs k \<le> 3" by (rule leading_zero_pairs_le)
  have un: "unat (of_nat (4 - leading_zero_pairs k) :: byte) = 4 - leading_zero_pairs k"
    by (simp add: unat_of_nat)
  have ex1: "write_key_action opts s to \<lparr>pressed = False, layer = 0, row = 0, column = 0\<rparr>
            = (1, s\<lparr>queue := queue s @ [Write to 0]\<rparr>)"
    using room
    by (simp add: write_key_action_def skip0 skip1 skip2 shift_pairs_def emit3 emit_byte_def)
  have ex2: "write_key_action opts s to
            \<lparr>pressed = False, layer = 0b00000100, row = 0b00011001, column = 0b00100011\<rparr>
            = (3, s\<lparr>queue := queue s @ [Write to 0b10000110, Write (to + 1) 0b11011000,
                                         Write (to + 2) 0b01000111]\<rparr>)"
    using room
    by (simp add: write_key_action_def skip0 skip1 skip2 shift_pairs_def emit1_Suc emit_byte_def)
  from le show ?thesis
    unfolding eb fst_conv un by (simp add: length_key_action_bytes ex1 [unfolded eb] ex2 [unfolded eb])
qed

theorem encode_length_witness:
  "\<not> EEMEM_END opts0 - 4 < 6 \<and>
   write_key_action opts0 blank 6 k_example =
     (3, blank\<lparr>queue := [Write 6 0b10000110, Write 7 0b11011000, Write 8 0b01000111]\<rparr>)"
proof -
  have room: "\<not> EEMEM_END opts0 - 4 < 6" by (simp add: EEMEM_END_def opts0_def)
  from encode_length [OF room, of blank k_example]
  have "write_key_action opts0 blank 6
            \<lparr>pressed = False, layer = 0b00000100, row = 0b00011001, column = 0b00100011\<rparr>
            = (3, blank\<lparr>queue := queue blank @ [Write 6 0b10000110, Write (6 + 1) 0b11011000,
                                         Write (6 + 2) 0b01000111]\<rparr>)"
    by blast
  with room show ?thesis
    by (simp add: k_example_def blank_def)
qed

theorem codec_round_trip_witness:
  "write_key_action opts0 blank 6 k_example =
     (3, blank\<lparr>queue := [Write 6 0b10000110, Write 7 0b11011000, Write 8 0b01000111]\<rparr>)
   \<and> (3::byte) \<noteq> 0
   \<and> read_key_action
       (flush (blank\<lparr>queue := [Write 6 0b10000110, Write 7 0b11011000, Write 8 0b01000111]\<rparr>)) 6
      = Some k_example"
proof -
  have room: "\<not> EEMEM_END opts0 - 4 < 6" by (simp add: EEMEM_END_def opts0_def)
  have w: "write_key_action opts0 blank 6 k_example =
     (3, blank\<lparr>queue := [Write 6 0b10000110, Write 7 0b11011000, Write 8 0b01000111]\<rparr>)"
    using room
    by (simp add: write_key_action_def skip0 skip1 skip2 shift_pairs_def emit1_Suc emit_byte_def
          k_example_def blank_def)
  have nz: "(3::byte) \<noteq> 0" by simp
  from codec_round_trip [OF w nz] w show ?thesis by simp
qed

text \<open>
  C7 (encode failure). \<open>write_key_action\<close> returns 0 exactly when its test
  \<open>to > EEMEM_END - 4\<close> holds, which for \<open>EEMEM_END \<ge> 4\<close> says that fewer than four
  bytes lie between \<open>to\<close> and \<open>EEMEM_END\<close>; there is no other failure, and on
  failure the state (EEPROM and write queue) is returned unchanged.
\<close>

theorem encode_failure:
  "(fst (write_key_action opts s to k) = 0) = (EEMEM_END opts - 4 < to)
   \<and> (EEMEM_END opts - 4 < to \<longrightarrow> snd (write_key_action opts s to k) = s)
   \<and> (4 \<le> EEMEM_END opts \<longrightarrow>
        (EEMEM_END opts - 4 < to) = (int (unat (EEMEM_END opts)) - int (unat to) < 4))"
proof (intro conjI impI)
  show "(fst (write_key_action opts s to k) = 0) = (EEMEM_END opts - 4 < to)"
  proof (cases "EEMEM_END opts - 4 < to")
    case True
    then show ?thesis by (simp add: write_key_action_def)
  next
    case False
    have "unat (of_nat (4 - leading_zero_pairs k) :: byte) = 4 - leading_zero_pairs k"
      by (simp add: unat_of_nat)
    moreover have "4 - leading_zero_pairs k \<noteq> 0"
      using leading_zero_pairs_le [of k] by simp
    ultimately have "(of_nat (4 - leading_zero_pairs k) :: byte) \<noteq> 0"
      by (metis unat_0)
    with False show ?thesis by (simp add: encode_bytes)
  qed
next
  assume "EEMEM_END opts - 4 < to"
  then show "snd (write_key_action opts s to k) = s" by (simp add: write_key_action_def)
next
  assume le: "4 \<le> EEMEM_END opts"
  then have sub: "unat (EEMEM_END opts - 4) = unat (EEMEM_END opts) - 4"
    by (simp add: unat_sub)
  from le have ge: "4 \<le> unat (EEMEM_END opts)"
    by (simp add: word_le_nat_alt)
  have "(EEMEM_END opts - 4 < to) = (unat (EEMEM_END opts) - 4 < unat to)"
    by (simp add: word_less_nat_alt sub)
  also from ge have "\<dots> = (int (unat (EEMEM_END opts)) - int (unat to) < 4)"
    by linarith
  finally show "(EEMEM_END opts - 4 < to) = (int (unat (EEMEM_END opts)) - int (unat to) < 4)" .
qed

theorem encode_failure_witness:
  "EEMEM_END opts0 - 4 < 1020 \<and> (4::addr) \<le> EEMEM_END opts0
   \<and> write_key_action opts0 blank 1020 k_example = (0, blank)
   \<and> int (unat (EEMEM_END opts0)) - int (unat (1020::addr)) < 4"
proof -
  have a: "EEMEM_END opts0 - 4 < 1020" by (simp add: EEMEM_END_def opts0_def)
  have b: "(4::addr) \<le> EEMEM_END opts0" by (simp add: EEMEM_END_def opts0_def)
  from encode_failure [of opts0 blank 1020 k_example] a b show ?thesis
    by (simp add: prod_eq_iff)
qed

section \<open>Lemmas about the searches\<close>

lemma type_distinct [simp]:
  "TYPE_DELETED \<noteq> TYPE_END" "TYPE_VALID_MACRO \<noteq> TYPE_END" "TYPE_CONTINUED \<noteq> TYPE_END"
  "TYPE_END \<noteq> TYPE_DELETED" "TYPE_END \<noteq> TYPE_VALID_MACRO" "TYPE_END \<noteq> TYPE_CONTINUED"
  "TYPE_DELETED \<noteq> TYPE_VALID_MACRO" "TYPE_VALID_MACRO \<noteq> TYPE_DELETED"
  "TYPE_DELETED \<noteq> TYPE_CONTINUED" "TYPE_CONTINUED \<noteq> TYPE_DELETED"
  "TYPE_VALID_MACRO \<noteq> TYPE_CONTINUED" "TYPE_CONTINUED \<noteq> TYPE_VALID_MACRO"
  by (simp_all add: TYPE_DELETED_def TYPE_VALID_MACRO_def TYPE_CONTINUED_def TYPE_END_def)

lemma ptr_Suc: "ptr a + 1 = ptr (Suc a)"
  by (simp add: ptr_def)

lemma ptr_plus2: "ptr a + 2 = ptr (a + 2)"
  by (simp add: ptr_def)

lemma ptr_add: "ptr a + of_nat n = ptr (a + n)"
  by (simp add: ptr_def)

lemma ptr_diff: "b \<le> a \<Longrightarrow> ptr a - ptr b = ptr (a - b)"
  by (simp add: ptr_def of_nat_diff)

lemma unat_ptr: "a < 65536 \<Longrightarrow> unat (ptr a) = a"
  by (simp add: ptr_def unat_of_nat)

lemma ptr_inj: "a < 65536 \<Longrightarrow> b < 65536 \<Longrightarrow> (ptr a = ptr b) = (a = b)"
  by (metis unat_ptr)

lemma ptr_nonzero: "0 < a \<Longrightarrow> a < 65536 \<Longrightarrow> ptr a \<noteq> 0"
  using of_nat_neq_0 [of a, where 'a = 16] by (simp add: ptr_def)

lemma next_addr: "ptr a + ucast (m (ptr a + 1)) = ptr (a + rec_len m a)"
  by (simp add: rec_len_def ptr_def)

lemma macros_start_addr: "EEMEM_MACROS_START opts = ptr (macros_start opts)"
  by (simp add: ptr_def macros_start_def EEMEM_MACROS_START_def EEMEM_VERSION_END_def
      EEMEM_VERSION_START_def EEMEM_END_ADDRESS_END_def EEMEM_END_ADDRESS_START_def
      EEMEM_START_ADDRESS_END_def EEMEM_START_ADDRESS_START_def)

lemma seg_append: "seg m a (xs @ ys) c = (\<exists>b. seg m a xs b \<and> seg m b ys c)"
  by (induction xs arbitrary: a) auto

lemma seg_le: "seg m a xs b \<Longrightarrow> a \<le> b"
proof (induction xs arbitrary: a)
  case Nil
  then show ?case by simp
next
  case (Cons x xs)
  then have "a + rec_len m a \<le> b" by auto
  then show ?case by simp
qed

lemma seg_mem_bounds: "seg m a xs b \<Longrightarrow> x \<in> set xs \<Longrightarrow> a \<le> x \<and> x + 2 \<le> b"
proof (induction xs arbitrary: a)
  case Nil
  then show ?case by simp
next
  case (Cons y ys)
  from Cons.prems(1) have s: "seg m (a + rec_len m a) ys b" and l: "2 \<le> rec_len m a" and y: "y = a"
    by auto
  from seg_le [OF s] l have "a + 2 \<le> b" by simp
  with Cons.IH [OF s] Cons.prems(2) y l show ?case by auto
qed

lemma fnd_end: "rec_tag (eeprom s) a = TYPE_END \<Longrightarrow> find_next_deleted s (ptr a) = Some 0"
  by (subst find_next_deleted.simps) (simp add: eeprom__read_def rec_tag_def)

lemma fnd_deleted: "rec_tag (eeprom s) a = TYPE_DELETED \<Longrightarrow> find_next_deleted s (ptr a) = Some (ptr a)"
  by (subst find_next_deleted.simps) (simp add: eeprom__read_def rec_tag_def)

lemma fnd_skip:
  "seg (eeprom s) a xs b \<Longrightarrow> \<forall>x\<in>set xs. rec_tag (eeprom s) x \<noteq> TYPE_DELETED \<Longrightarrow>
     find_next_deleted s (ptr a) = find_next_deleted s (ptr b)"
proof (induction xs arbitrary: a)
  case Nil
  then show ?case by simp
next
  case (Cons x xs)
  from Cons.prems have t: "rec_tag (eeprom s) a \<noteq> TYPE_DELETED" "rec_tag (eeprom s) a \<noteq> TYPE_END"
    and r: "seg (eeprom s) (a + rec_len (eeprom s) a) xs b" "\<forall>x\<in>set xs. rec_tag (eeprom s) x \<noteq> TYPE_DELETED"
    by auto
  have "find_next_deleted s (ptr a) = find_next_deleted s (ptr (a + rec_len (eeprom s) a))"
    using t by (subst find_next_deleted.simps) (simp add: eeprom__read_def rec_tag_def next_addr)
  with Cons.IH [OF r] show ?case by simp
qed

lemma fnn_stop:
  "rec_tag (eeprom s) a \<noteq> TYPE_DELETED \<Longrightarrow> rec_tag (eeprom s) a \<noteq> TYPE_CONTINUED \<Longrightarrow>
     find_next_nondeleted s (ptr a) = Some (ptr a)"
  by (subst find_next_nondeleted.simps) (simp add: eeprom__read_def rec_tag_def)

lemma fnd_step:
  "rec_tag (eeprom s) a \<noteq> TYPE_DELETED \<Longrightarrow> rec_tag (eeprom s) a \<noteq> TYPE_END \<Longrightarrow>
     find_next_deleted s (ptr a) = find_next_deleted s (ptr (a + rec_len (eeprom s) a))"
  by (subst find_next_deleted.simps) (simp add: eeprom__read_def rec_tag_def next_addr)

lemma fnn_step:
  "rec_tag (eeprom s) a = TYPE_DELETED \<or> rec_tag (eeprom s) a = TYPE_CONTINUED \<Longrightarrow>
     find_next_nondeleted s (ptr a) = find_next_nondeleted s (ptr (a + rec_len (eeprom s) a))"
  by (subst find_next_nondeleted.simps) (auto simp add: eeprom__read_def rec_tag_def next_addr)

lemma fnd_find:
  "seg (eeprom s) a xs e \<Longrightarrow> rec_tag (eeprom s) e = TYPE_END \<Longrightarrow>
     find_next_deleted s (ptr a) =
       Some (case find (\<lambda>x. rec_tag (eeprom s) x = TYPE_DELETED) xs of
               Some x \<Rightarrow> ptr x | None \<Rightarrow> 0)"
proof (induction xs arbitrary: a)
  case Nil
  then show ?case by (simp add: fnd_end)
next
  case (Cons x xs)
  from Cons.prems have x: "x = a" and r: "seg (eeprom s) (a + rec_len (eeprom s) a) xs e"
    and t: "rec_tag (eeprom s) a \<noteq> TYPE_END" by auto
  show ?case
  proof (cases "rec_tag (eeprom s) a = TYPE_DELETED")
    case True
    then show ?thesis by (simp add: x fnd_deleted)
  next
    case False
    with fnd_step [OF False t] Cons.IH [OF r Cons.prems(2)] show ?thesis by (simp add: x)
  qed
qed

lemma fnn_find:
  "seg (eeprom s) a xs e \<Longrightarrow> rec_tag (eeprom s) e = TYPE_END \<Longrightarrow>
     \<exists>x. find (\<lambda>x. rec_tag (eeprom s) x = TYPE_VALID_MACRO \<or> rec_tag (eeprom s) x = TYPE_END) (xs @ [e]) = Some x
        \<and> find_next_nondeleted s (ptr a) = Some (ptr x)"
proof (induction xs arbitrary: a)
  case Nil
  then show ?case by (simp add: fnn_stop)
next
  case (Cons x xs)
  from Cons.prems have x: "x = a" and r: "seg (eeprom s) (a + rec_len (eeprom s) a) xs e"
    and t: "rec_tag (eeprom s) a = TYPE_DELETED \<or> rec_tag (eeprom s) a = TYPE_VALID_MACRO
            \<or> rec_tag (eeprom s) a = TYPE_CONTINUED" by auto
  show ?case
  proof (cases "rec_tag (eeprom s) a = TYPE_VALID_MACRO")
    case True
    then show ?thesis by (simp add: x fnn_stop)
  next
    case False
    with t have dc: "rec_tag (eeprom s) a = TYPE_DELETED \<or> rec_tag (eeprom s) a = TYPE_CONTINUED"
      by blast
    then have "rec_tag (eeprom s) a \<noteq> TYPE_END" by auto
    with False fnn_step [OF dc] Cons.IH [OF r Cons.prems(2)] show ?thesis by (simp add: x)
  qed
qed

text \<open>
  C6 (the searches end). From any macro of a well-formed area, with \<open>xs\<close> the macros
  from there on and the end macro at \<open>e\<close>, both searches return: \<open>find_next_deleted\<close>
  the first macro of type deleted, or 0 when the end macro comes first, and
  \<open>find_next_nondeleted\<close> the first macro of type valid or end. All the macros
  visited lie between the start and the end macro.
\<close>

theorem navigators_terminate:
  assumes "seg (eeprom s) a xs e" and "rec_tag (eeprom s) e = TYPE_END"
  shows "find_next_deleted s (ptr a) =
           Some (case find (\<lambda>x. rec_tag (eeprom s) x = TYPE_DELETED) xs of
                   Some x \<Rightarrow> ptr x | None \<Rightarrow> 0)
       \<and> (\<exists>x. find (\<lambda>x. rec_tag (eeprom s) x = TYPE_VALID_MACRO \<or> rec_tag (eeprom s) x = TYPE_END)
                   (xs @ [e]) = Some x
              \<and> find_next_nondeleted s (ptr a) = Some (ptr x))
       \<and> (\<forall>x\<in>set (xs @ [e]). a \<le> x \<and> x \<le> e)"
proof -
  have "\<forall>x\<in>set (xs @ [e]). a \<le> x \<and> x \<le> e"
    using seg_mem_bounds [OF assms(1)] seg_le [OF assms(1)] by fastforce
  with fnd_find [OF assms] fnn_find [OF assms] show ?thesis by blast
qed

lemma read_loop_terminates:
  "drop_bit 7 (eeprom s (frm + of_nat j)) = 0 \<Longrightarrow> read_key_action_loop s frm b k \<noteq> None"
proof (induction j arbitrary: frm b k)
  case 0
  then have z: "drop_bit 7 (eeprom s frm) = 0" by simp
  show ?case
  proof (cases "drop_bit 7 b = 0")
    case True
    then show ?thesis by (simp add: read_loop_stop)
  next
    case False
    then show ?thesis by (simp add: read_loop_step read_loop_stop z)
  qed
next
  case (Suc j)
  from Suc.prems have "drop_bit 7 (eeprom s ((frm + 1) + of_nat j)) = 0"
    by (simp add: ac_simps)
  from Suc.IH [OF this] show ?case
    by (cases "drop_bit 7 b = 0") (simp_all add: read_loop_stop read_loop_step)
qed

lemma read_key_action_terminates:
  assumes "drop_bit 7 (eeprom s (frm + of_nat j)) = 0"
  shows "read_key_action s frm \<noteq> None"
proof (cases j)
  case 0
  with assms show ?thesis
    by (simp add: read_key_action_def Let_def eeprom__read_def read_loop_stop)
next
  case (Suc j')
  with assms have "drop_bit 7 (eeprom s ((frm + 1) + of_nat j')) = 0"
    by (simp add: ac_simps)
  from read_loop_terminates [OF this] show ?thesis
    by (simp add: read_key_action_def Let_def)
qed

lemma key_action_fields_eq:
  "(pressed k = pressed k' \<and> layer k = layer k' \<and> row k = row k' \<and> column k = column k')
     = (k' = (k::key_action_t))"
  by auto

lemma fka_end: "rec_tag (eeprom s) a = TYPE_END \<Longrightarrow> find_key_action_loop s k (ptr a) = Some 0"
  by (subst find_key_action_loop.simps) (simp add: eeprom__read_def rec_tag_def)

lemma fka_skip:
  "rec_tag (eeprom s) a \<noteq> TYPE_END \<Longrightarrow> rec_tag (eeprom s) a \<noteq> TYPE_VALID_MACRO \<Longrightarrow>
     find_key_action_loop s k (ptr a) = find_key_action_loop s k (ptr (a + rec_len (eeprom s) a))"
  by (subst find_key_action_loop.simps) (simp add: eeprom__read_def rec_tag_def next_addr)

lemma fka_valid:
  "rec_tag (eeprom s) a = TYPE_VALID_MACRO \<Longrightarrow> read_key_action s (ptr a + 2) = Some kc \<Longrightarrow>
     find_key_action_loop s k (ptr a) =
       (if kc = k then Some (ptr a)
        else find_key_action_loop s k (ptr (a + rec_len (eeprom s) a)))"
  by (subst find_key_action_loop.simps)
     (simp add: eeprom__read_def rec_tag_def next_addr key_action_fields_eq)

lemma trigger_ok_reads:
  assumes "trigger_ok (eeprom s) a"
  shows "read_key_action s (ptr a + 2) \<noteq> None"
proof -
  from assms obtain j where j: "2 \<le> j" and z: "drop_bit 7 (eeprom s (ptr (a + j))) = 0"
    by (auto simp: trigger_ok_def)
  from j have "a + j = a + 2 + (j - 2)" by simp
  then have "ptr (a + j) = ptr (a + 2 + (j - 2))"
    by (simp only:)
  also have "\<dots> = ptr a + 2 + of_nat (j - 2)"
    by (simp only: ptr_add ptr_plus2)
  finally have "drop_bit 7 (eeprom s (ptr a + 2 + of_nat (j - 2))) = 0"
    using z by (simp only:)
  then show ?thesis by (rule read_key_action_terminates)
qed

lemma fka_find:
  "seg (eeprom s) a xs e \<Longrightarrow> rec_tag (eeprom s) e = TYPE_END \<Longrightarrow>
   \<forall>x\<in>set xs. rec_tag (eeprom s) x = TYPE_VALID_MACRO \<longrightarrow> trigger_ok (eeprom s) x \<Longrightarrow>
     find_key_action_loop s k (ptr a) =
       Some (case find (\<lambda>x. rec_tag (eeprom s) x = TYPE_VALID_MACRO
                            \<and> read_key_action s (ptr x + 2) = Some k) xs of
               Some x \<Rightarrow> ptr x | None \<Rightarrow> 0)"
proof (induction xs arbitrary: a)
  case Nil
  then show ?case by (simp add: fka_end)
next
  case (Cons x xs)
  from Cons.prems have x: "x = a" and r: "seg (eeprom s) (a + rec_len (eeprom s) a) xs e"
    and t: "rec_tag (eeprom s) a \<noteq> TYPE_END"
    and ok: "\<forall>x\<in>set xs. rec_tag (eeprom s) x = TYPE_VALID_MACRO \<longrightarrow> trigger_ok (eeprom s) x"
    by auto
  note IH = Cons.IH [OF r Cons.prems(2) ok]
  show ?case
  proof (cases "rec_tag (eeprom s) a = TYPE_VALID_MACRO")
    case True
    with Cons.prems(3) x have "trigger_ok (eeprom s) a" by simp
    from trigger_ok_reads [OF this] obtain kc where kc: "read_key_action s (ptr a + 2) = Some kc"
      by auto
    show ?thesis
      using True kc IH by (simp add: x fka_valid [OF True kc])
  next
    case False
    with fka_skip [OF t False] IH show ?thesis by (simp add: x)
  qed
qed

lemma macro_area_addr_nonzero:
  assumes "macro_area opts m xs e" and "x \<in> set (xs @ [e])"
  shows "ptr x \<noteq> 0"
proof -
  from assms(1) have sg: "seg m (macros_start opts) xs e" and e: "e \<le> 1023"
    by (auto simp: macro_area_def)
  from seg_mem_bounds [OF sg] seg_le [OF sg] assms(2) have "macros_start opts \<le> x" "x \<le> e"
    by fastforce+
  then have "0 < x" "x < 65536" using e by (simp_all add: macros_start_def)
  then show ?thesis by (simp add: ptr_nonzero)
qed

text \<open>
  C5 (lookup). In a well-formed area whose valid macros have a readable key-action,
  \<open>find_key_action\<close> returns the first valid macro whose key-action equals \<open>k\<close>;
  deleted and continued macros are never compared. When there is none it returns 0,
  which is the address of no macro, since the macros begin five bytes after
  \<open>EEMEM_START\<close>.
\<close>

theorem find_key_action_correct:
  assumes "macro_area opts (eeprom s) xs e"
    and "\<forall>x\<in>set xs. rec_tag (eeprom s) x = TYPE_VALID_MACRO \<longrightarrow> trigger_ok (eeprom s) x"
  shows "find_key_action opts s k =
           Some (case find (\<lambda>x. rec_tag (eeprom s) x = TYPE_VALID_MACRO
                                \<and> read_key_action s (ptr x + 2) = Some k) xs of
                   Some x \<Rightarrow> ptr x | None \<Rightarrow> 0)
         \<and> (\<forall>x\<in>set (xs @ [e]). ptr x \<noteq> 0)"
proof -
  from assms(1) have sg: "seg (eeprom s) (macros_start opts) xs e"
    and en: "rec_tag (eeprom s) e = TYPE_END"
    by (auto simp: macro_area_def)
  from fka_find [OF sg en assms(2)] macro_area_addr_nonzero [OF assms(1)]
  show ?thesis
    by (simp only: find_key_action_def macros_start_addr) blast
qed

section \<open>Queued writes and copies\<close>

lemma unat_plus1: "unat (t::addr) + 1 < 65536 \<Longrightarrow> unat (t + 1) = unat t + 1"
  using unat_add_lem [of t 1] by simp

lemma unat_add16: "unat (a::addr) + unat b < 65536 \<Longrightarrow> unat (a + b) = unat a + unat b"
  using unat_add_lem [of a b] by simp

lemma op_within_mono: "op_within lo hi d \<Longrightarrow> lo' \<le> lo \<Longrightarrow> hi \<le> hi' \<Longrightarrow> op_within lo' hi' d"
  by (cases d) auto

lemma copy_bytes_outside:
  "unat t + n < 65536 \<Longrightarrow> unat p < unat t \<or> unat t + n \<le> unat p \<Longrightarrow>
     copy_bytes m t f n p = m p"
proof (induction n arbitrary: m t f)
  case 0
  then show ?case by simp
next
  case (Suc n)
  from Suc.prems(1) have u: "unat (t + 1) = unat t + 1"
    by (intro unat_plus1) simp
  from Suc.prems have ne: "p \<noteq> t" by auto
  have "copy_bytes (m(t := m f)) (t + 1) (f + 1) n p = (m(t := m f)) p"
    using Suc.prems by (intro Suc.IH) (auto simp: u)
  with ne show ?case by simp
qed

lemma apply_ops_outside:
  "\<forall>c\<in>set cs. op_within lo hi c \<Longrightarrow> hi < 65536 \<Longrightarrow> unat p < lo \<or> hi \<le> unat p \<Longrightarrow>
     apply_ops cs m p = m p"
proof (induction cs arbitrary: m)
  case Nil
  then show ?case by (simp add: apply_ops_def)
next
  case (Cons c cs)
  have step: "apply_op c m p = m p"
  proof (cases c)
    case (Write a b)
    with Cons.prems show ?thesis by auto
  next
    case (Copy t f l)
    with Cons.prems have "unat t + unat l < 65536" "unat p < unat t \<or> unat t + unat l \<le> unat p"
      by auto
    then show ?thesis by (simp add: Copy copy_bytes_outside)
  qed
  have "apply_ops (c # cs) m p = apply_ops cs (apply_op c m) p"
    by (simp add: apply_ops_def)
  also have "\<dots> = apply_op c m p"
    using Cons.prems by (intro Cons.IH) auto
  finally show ?case by (simp add: step)
qed

lemma copy_bytes_shift:
  "unat t < unat f \<Longrightarrow> unat f + n < 65536 \<Longrightarrow>
     copy_bytes m t f n p =
       (if unat t \<le> unat p \<and> unat p < unat t + n then m (f + (p - t)) else m p)"
proof (induction n arbitrary: m t f)
  case 0
  then show ?case by auto
next
  case (Suc n)
  from Suc.prems have "unat t + 1 < 65536" "unat f + 1 < 65536" by simp_all
  then have ut: "unat (t + 1) = unat t + 1" and uf: "unat (f + 1) = unat f + 1"
    by (simp_all only: unat_plus1)
  let ?m = "m(t := m f)"
  have IH: "copy_bytes ?m (t + 1) (f + 1) n p =
       (if unat t + 1 \<le> unat p \<and> unat p < unat t + 1 + n then ?m (f + 1 + (p - (t + 1))) else ?m p)"
    using Suc.prems by (subst Suc.IH) (auto simp: ut uf)
  have src: "f + 1 + (p - (t + 1)) = f + (p - t)" by simp
  show ?case
  proof (cases "unat t + 1 \<le> unat p \<and> unat p < unat t + 1 + n")
    case True
    then have tp: "t \<le> p" by (simp add: word_le_nat_alt)
    then have "unat (p - t) = unat p - unat t" by (simp add: unat_sub)
    moreover from this True Suc.prems have "unat f + unat (p - t) < 65536"
      by arith
    then have "unat f + unat (p - t) < 2 ^ LENGTH(16)" by simp
    ultimately have "unat (f + (p - t)) = unat f + (unat p - unat t)"
      using unat_add_lem [of f "p - t"] by metis
    with True Suc.prems have "unat (f + (p - t)) \<noteq> unat t" by arith
    then have "f + (p - t) \<noteq> t" by metis
    with True show ?thesis by (simp add: IH src)
  next
    case False
    then have "copy_bytes ?m (t + 1) (f + 1) n p = ?m p"
      by (simp only: IH if_False)
    then have rest: "copy_bytes ?m (t + 1) (f + 1) n p = (if p = t then m f else m p)"
      by simp
    show ?thesis
    proof (cases "p = t")
      case True
      with rest show ?thesis by simp
    next
      case ne: False
      then have "unat p \<noteq> unat t" by (simp add: word_unat_eq_iff)
      with False ne rest show ?thesis by (simp del: fun_upd_apply) arith
    qed
  qed
qed

lemma compress_copy_result:
  "unat t < unat f \<Longrightarrow> unat f \<le> unat nx \<Longrightarrow> unat nx < 65535 \<Longrightarrow> n = unat nx - unat f \<Longrightarrow>
   \<exists>cs. compress_copy s t f nx = (s\<lparr>queue := queue s @ cs\<rparr>, t + (nx - f), nx)
      \<and> (\<forall>c\<in>set cs. op_within (unat t) (unat t + n) c \<and> is_copy c)
      \<and> (\<forall>m p. apply_ops cs m p =
            (if unat t \<le> unat p \<and> unat p < unat t + n then m (f + (p - t)) else m p))"
proof (induction n arbitrary: s t f rule: less_induct)
  case (less n)
  show ?case
  proof (cases "n = 0")
    case True
    with less.prems have "f = nx" by (simp add: word_unat_eq_iff)
    then have "compress_copy s t f nx = (s, t, nx)"
      by (subst compress_copy.simps) simp
    with True \<open>f = nx\<close> show ?thesis
      by (intro exI [of _ "[]"]) (auto simp add: apply_ops_def)
  next
    case False
    define len where "len = nx - f"
    define len' where "len' = (if 0xFF < len then 0xFF else len)"
    define c where "c = unat len'"
    from less.prems have fle: "f \<le> nx" by (simp add: word_le_nat_alt)
    then have ulen: "unat len = n" using less.prems by (simp add: len_def unat_sub)
    with False have nz: "len \<noteq> 0" by (auto simp: unat_eq_zero)
    have c: "c = min n 255" "0 < c" "c \<le> n" "c \<le> 255"
      using ulen False by (auto simp: c_def len'_def word_less_nat_alt)
    have uc: "unat (ucast len' :: byte) = c"
      using c by (simp add: c_def unsigned_ucast_eq take_bit_nat_eq_self)
    from less.prems c have "unat t + unat len' < 65536" "unat f + unat len' < 65536"
      unfolding c_def by arith+
    then have ut: "unat (t + len') = unat t + c" and uf: "unat (f + len') = unat f + c"
      by (simp_all add: unat_add16 c_def)
    let ?s = "eeprom__copy s t f (ucast len')"
    have step: "compress_copy s t f nx = compress_copy ?s (t + len') (f + len') nx"
      using nz by (subst compress_copy.simps) (simp add: Let_def len_def len'_def)
    have "\<exists>cs. compress_copy ?s (t + len') (f + len') nx
               = (?s\<lparr>queue := queue ?s @ cs\<rparr>, (t + len') + (nx - (f + len')), nx)
      \<and> (\<forall>d\<in>set cs. op_within (unat (t + len')) (unat (t + len') + (n - c)) d \<and> is_copy d)
      \<and> (\<forall>m p. apply_ops cs m p =
            (if unat (t + len') \<le> unat p \<and> unat p < unat (t + len') + (n - c)
             then m ((f + len') + (p - (t + len'))) else m p))"
      using less.prems c by (intro less.IH) (simp_all add: ut uf)
    then obtain cs where
      r: "compress_copy ?s (t + len') (f + len') nx
               = (?s\<lparr>queue := queue ?s @ cs\<rparr>, (t + len') + (nx - (f + len')), nx)"
      and w: "\<forall>d\<in>set cs. op_within (unat t + c) (unat t + c + (n - c)) d \<and> is_copy d"
      and a: "\<And>m p. apply_ops cs m p =
            (if unat t + c \<le> unat p \<and> unat p < unat t + c + (n - c)
             then m (f + (p - t)) else m p)"
      by (auto simp: ut)
    let ?cs = "Copy t f (ucast len') # cs"
    have 1: "compress_copy s t f nx = (s\<lparr>queue := queue s @ ?cs\<rparr>, t + (nx - f), nx)"
      unfolding step r by (simp add: eeprom__copy_def)
    have 2: "\<forall>d\<in>set ?cs. op_within (unat t) (unat t + n) d \<and> is_copy d"
    proof
      fix d assume "d \<in> set ?cs"
      then consider "d = Copy t f (ucast len')" | "d \<in> set cs" by auto
      then show "op_within (unat t) (unat t + n) d \<and> is_copy d"
      proof cases
        case 1
        with c show ?thesis by (simp add: uc)
      next
        case 2
        with w have "op_within (unat t + c) (unat t + c + (n - c)) d" "is_copy d" by auto
        with c show ?thesis by (auto intro: op_within_mono)
      qed
    qed
    have 3: "apply_ops ?cs m p =
            (if unat t \<le> unat p \<and> unat p < unat t + n then m (f + (p - t)) else m p)" for m p
    proof -
      let ?m1 = "copy_bytes m t f c"
      have m1: "?m1 q = (if unat t \<le> unat q \<and> unat q < unat t + c then m (f + (q - t)) else m q)" for q
        using less.prems c by (intro copy_bytes_shift) simp_all
      have "apply_ops ?cs m p = apply_ops cs ?m1 p"
        by (simp add: apply_ops_def uc)
      also have "\<dots> = (if unat t + c \<le> unat p \<and> unat p < unat t + c + (n - c)
             then ?m1 (f + (p - t)) else ?m1 p)"
        by (rule a)
      finally have e: "apply_ops ?cs m p = (if unat t + c \<le> unat p \<and> unat p < unat t + n
             then ?m1 (f + (p - t)) else ?m1 p)"
        using c by simp
      show ?thesis
      proof (cases "unat t + c \<le> unat p \<and> unat p < unat t + n")
        case True
        then have "t \<le> p" by (simp add: word_le_nat_alt)
        then have "unat (p - t) = unat p - unat t" by (simp add: unat_sub)
        moreover from this True less.prems have "unat f + unat (p - t) < 65536" by arith
        then have "unat f + unat (p - t) < 2 ^ LENGTH(16)" by simp
        ultimately have "unat (f + (p - t)) = unat f + (unat p - unat t)"
          using unat_add_lem [of f "p - t"] by metis
        with True less.prems have "\<not> unat (f + (p - t)) < unat t + c" by arith
        with True e show ?thesis by (simp add: m1)
      next
        case False
        with e m1 [of p] c show ?thesis by auto
      qed
    qed
    from 1 2 3 show ?thesis by blast
  qed
qed

lemma rec_len_Suc: "rec_len m a = unat (m (ptr (Suc a)))"
  by (simp add: rec_len_def ptr_Suc)

lemma seg_frame:
  "seg m a xs b \<Longrightarrow> \<forall>y. a \<le> y \<and> y < b \<longrightarrow> m' (ptr y) = m (ptr y) \<Longrightarrow> seg m' a xs b"
proof (induction xs arbitrary: a)
  case Nil
  then show ?case by simp
next
  case (Cons x xs)
  from Cons.prems(1) have x: "x = a" and l: "2 \<le> rec_len m a"
    and t: "rec_tag m a = TYPE_DELETED \<or> rec_tag m a = TYPE_VALID_MACRO \<or> rec_tag m a = TYPE_CONTINUED"
    and r: "seg m (a + rec_len m a) xs b" by auto
  from seg_le [OF r] l have ab: "a + 2 \<le> b" by simp
  with Cons.prems(2) have "m' (ptr a) = m (ptr a)" "m' (ptr (Suc a)) = m (ptr (Suc a))"
    by auto
  then have eq: "rec_tag m' a = rec_tag m a" "rec_len m' a = rec_len m a"
    by (simp_all only: rec_tag_def rec_len_Suc)
  have "seg m' (a + rec_len m a) xs b"
    using r Cons.prems(2) by (intro Cons.IH) auto
  with x l t eq show ?case by simp
qed

lemma seg_tags_frame:
  "seg m a xs b \<Longrightarrow> \<forall>y. a \<le> y \<and> y < b \<longrightarrow> m' (ptr y) = m (ptr y) \<Longrightarrow> x \<in> set xs \<Longrightarrow>
     rec_tag m' x = rec_tag m x"
  using seg_mem_bounds [of m a xs b x] by (simp add: rec_tag_def)

lemma seg_shift:
  "seg m a xs b \<Longrightarrow> \<forall>i. i < b - a \<longrightarrow> m' (ptr (a' + i)) = m (ptr (a + i)) \<Longrightarrow>
     seg m' a' (map (\<lambda>x. x - a + a') xs) (a' + (b - a))"
proof (induction xs arbitrary: a a')
  case Nil
  then show ?case by simp
next
  case (Cons x xs)
  from Cons.prems(1) have x: "x = a" and l: "2 \<le> rec_len m a"
    and t: "rec_tag m a = TYPE_DELETED \<or> rec_tag m a = TYPE_VALID_MACRO \<or> rec_tag m a = TYPE_CONTINUED"
    and r: "seg m (a + rec_len m a) xs b" by auto
  let ?l = "rec_len m a"
  from seg_le [OF r] l have ab: "a + ?l \<le> b" "a + 2 \<le> b" by simp_all
  from Cons.prems(2) [rule_format, of 0] Cons.prems(2) [rule_format, of 1] ab
  have "m' (ptr a') = m (ptr a)" "m' (ptr (Suc a')) = m (ptr (Suc a))"
    by simp_all
  then have eq: "rec_tag m' a' = rec_tag m a" "rec_len m' a' = rec_len m a"
    by (simp_all only: rec_tag_def rec_len_Suc)
  have "\<forall>i. i < b - (a + ?l) \<longrightarrow> m' (ptr (a' + ?l + i)) = m (ptr (a + ?l + i))"
  proof (intro allI impI)
    fix i assume "i < b - (a + ?l)"
    then have "?l + i < b - a" by simp
    from Cons.prems(2) [rule_format, OF this] show "m' (ptr (a' + ?l + i)) = m (ptr (a + ?l + i))"
      by (simp add: add.assoc)
  qed
  from Cons.IH [OF r this]
  have "seg m' (a' + ?l) (map (\<lambda>x. x - (a + ?l) + (a' + ?l)) xs) (a' + ?l + (b - (a + ?l)))" .
  moreover have "map (\<lambda>x. x - (a + ?l) + (a' + ?l)) xs = map (\<lambda>x. x - a + a') xs"
  proof (rule map_cong [OF refl])
    fix y assume "y \<in> set xs"
    from seg_mem_bounds [OF r this] show "y - (a + ?l) + (a' + ?l) = y - a + a'" by simp
  qed
  moreover from ab have "a' + ?l + (b - (a + ?l)) = a' + (b - a)" by simp
  ultimately have "seg m' (a' + ?l) (map (\<lambda>x. x - a + a') xs) (a' + (b - a))" by simp
  with x l t eq show ?case by simp
qed

lemma seg_shift_tag:
  assumes "seg m a xs b" and "\<forall>i. i < b - a \<longrightarrow> m' (ptr (a' + i)) = m (ptr (a + i))"
    and "x \<in> set xs"
  shows "rec_tag m' (x - a + a') = rec_tag m x"
proof -
  from seg_mem_bounds [OF assms(1,3)] have b: "a \<le> x" "x - a < b - a" by auto
  from assms(2) [rule_format, OF b(2)] b(1) show ?thesis
    by (simp add: rec_tag_def add.commute)
qed

lemma fnn_split:
  "seg (eeprom s) a xs e \<Longrightarrow> rec_tag (eeprom s) e = TYPE_END \<Longrightarrow>
     \<exists>ds ys x. xs = ds @ ys \<and> seg (eeprom s) a ds x \<and> seg (eeprom s) x ys e
        \<and> rec_tag (eeprom s) x \<noteq> TYPE_DELETED \<and> rec_tag (eeprom s) x \<noteq> TYPE_CONTINUED
        \<and> find_next_nondeleted s (ptr a) = Some (ptr x)"
proof (induction xs arbitrary: a)
  case Nil
  then show ?case by (auto simp: fnn_stop)
next
  case (Cons y xs)
  from Cons.prems have y: "y = a" and r: "seg (eeprom s) (a + rec_len (eeprom s) a) xs e" by auto
  show ?case
  proof (cases "rec_tag (eeprom s) a = TYPE_DELETED \<or> rec_tag (eeprom s) a = TYPE_CONTINUED")
    case True
    from Cons.IH [OF r Cons.prems(2)] obtain ds ys x where
      h: "xs = ds @ ys" "seg (eeprom s) (a + rec_len (eeprom s) a) ds x" "seg (eeprom s) x ys e"
        "rec_tag (eeprom s) x \<noteq> TYPE_DELETED" "rec_tag (eeprom s) x \<noteq> TYPE_CONTINUED"
        "find_next_nondeleted s (ptr (a + rec_len (eeprom s) a)) = Some (ptr x)" by blast
    from Cons.prems(1) h(2) have "seg (eeprom s) a (a # ds) x" by simp
    with h fnn_step [OF True] y show ?thesis
      by (intro exI [of _ "a # ds"] exI [of _ ys] exI [of _ x]) simp
  next
    case False
    with Cons.prems fnn_stop [of s a] show ?thesis
      by (intro exI [of _ "[]"] exI [of _ "y # xs"] exI [of _ a]) simp
  qed
qed

lemma fnd_split:
  "seg (eeprom s) a xs e \<Longrightarrow> rec_tag (eeprom s) e = TYPE_END \<Longrightarrow>
     \<exists>ls ys x. xs = ls @ ys \<and> seg (eeprom s) a ls x \<and> seg (eeprom s) x ys e
        \<and> (\<forall>l\<in>set ls. rec_tag (eeprom s) l \<noteq> TYPE_DELETED)
        \<and> ((ys = [] \<and> find_next_deleted s (ptr a) = Some 0)
            \<or> (ys \<noteq> [] \<and> rec_tag (eeprom s) x = TYPE_DELETED
                \<and> find_next_deleted s (ptr a) = Some (ptr x)))"
proof (induction xs arbitrary: a)
  case Nil
  then show ?case by (auto simp: fnd_end)
next
  case (Cons y xs)
  from Cons.prems have y: "y = a" and r: "seg (eeprom s) (a + rec_len (eeprom s) a) xs e"
    and t: "rec_tag (eeprom s) a \<noteq> TYPE_END" by auto
  show ?case
  proof (cases "rec_tag (eeprom s) a = TYPE_DELETED")
    case True
    with Cons.prems fnd_deleted [OF True] show ?thesis
      by (intro exI [of _ "[]"] exI [of _ "y # xs"] exI [of _ a]) simp
  next
    case False
    from Cons.IH [OF r Cons.prems(2)] obtain ls ys x where
      h: "xs = ls @ ys" "seg (eeprom s) (a + rec_len (eeprom s) a) ls x" "seg (eeprom s) x ys e"
        "\<forall>l\<in>set ls. rec_tag (eeprom s) l \<noteq> TYPE_DELETED"
        "(ys = [] \<and> find_next_deleted s (ptr (a + rec_len (eeprom s) a)) = Some 0)
            \<or> (ys \<noteq> [] \<and> rec_tag (eeprom s) x = TYPE_DELETED
                \<and> find_next_deleted s (ptr (a + rec_len (eeprom s) a)) = Some (ptr x))" by blast
    from Cons.prems(1) h(2) have "seg (eeprom s) a (a # ls) x" by simp
    with h fnd_step [OF False t] y False show ?thesis
      by (intro exI [of _ "a # ls"] exI [of _ ys] exI [of _ x]) simp
  qed
qed

lemma compress_copy_nat:
  assumes "dst < src" "src \<le> nxt" "nxt < 65535"
  shows "\<exists>cs. compress_copy s (ptr dst) (ptr src) (ptr nxt)
               = (s\<lparr>queue := queue s @ cs\<rparr>, ptr (dst + (nxt - src)), ptr nxt)
      \<and> (\<forall>c\<in>set cs. op_within dst (dst + (nxt - src)) c \<and> is_copy c)
      \<and> (\<forall>M y. y < 65536 \<longrightarrow> apply_ops cs M (ptr y) =
            (if dst \<le> y \<and> y < dst + (nxt - src) then M (ptr (src + (y - dst)))
             else M (ptr y)))"
proof -
  from assms have u: "unat (ptr dst) = dst" "unat (ptr src) = src" "unat (ptr nxt) = nxt"
    by (simp_all add: unat_ptr)
  from assms have "unat (ptr dst) < unat (ptr src)" "unat (ptr src) \<le> unat (ptr nxt)"
    "unat (ptr nxt) < 65535"
    by (simp_all add: u)
  from compress_copy_result [OF this refl, of s] obtain cs where
    r: "compress_copy s (ptr dst) (ptr src) (ptr nxt)
          = (s\<lparr>queue := queue s @ cs\<rparr>, ptr dst + (ptr nxt - ptr src), ptr nxt)"
    and w: "\<forall>c\<in>set cs. op_within dst (dst + (nxt - src)) c \<and> is_copy c"
    and a: "\<And>m p. apply_ops cs m p =
            (if dst \<le> unat p \<and> unat p < dst + (nxt - src) then m (ptr src + (p - ptr dst)) else m p)"
    unfolding u by blast
  from assms have "ptr dst + (ptr nxt - ptr src) = ptr (dst + (nxt - src))"
    by (simp add: ptr_diff ptr_def)
  with r have 1: "compress_copy s (ptr dst) (ptr src) (ptr nxt)
         = (s\<lparr>queue := queue s @ cs\<rparr>, ptr (dst + (nxt - src)), ptr nxt)" by simp
  have 3: "apply_ops cs M (ptr y) =
            (if dst \<le> y \<and> y < dst + (nxt - src) then M (ptr (src + (y - dst)))
             else M (ptr y))" if y: "y < 65536" for M y
  proof -
    from y have uy: "unat (ptr y) = y" by (simp add: unat_ptr)
    show ?thesis
    proof (cases "dst \<le> y")
      case True
      then have "ptr src + (ptr y - ptr dst) = ptr (src + (y - dst))"
        by (simp add: ptr_diff ptr_def)
      then show ?thesis by (simp add: a uy)
    next
      case False
      then show ?thesis by (simp add: a uy)
    qed
  qed
  from 1 w 3 show ?thesis by blast
qed

lemma apply_ops_snoc_write:
  "apply_ops (xs @ [Write a b]) M = (apply_ops xs M)(a := b)"
  by (simp add: apply_ops_def)

lemma span_copied:
  assumes cs: "\<forall>c\<in>set cs. op_within (Suc w) (Suc w + (x1 - Suc tc)) c"
    and ap: "\<And>M y. y < 65536 \<Longrightarrow> apply_ops cs M (ptr y) =
            (if Suc w \<le> y \<and> y < Suc w + (x1 - Suc tc) then M (ptr (Suc tc + (y - Suc w)))
             else M (ptr y))"
    and ord: "w < tc" "tc < x1" "x1 < 65535"
    and same: "\<forall>y. w < y \<and> y < 65536 \<longrightarrow> M (ptr y) = m (ptr y)"
    and E: "E = [] \<or> E = [Write (ptr (w + (x1 - tc))) TYPE_END]"
    and ops: "ops = cs @ E @ [Write (ptr w) (m (ptr tc))]"
  shows "\<forall>y. y < w \<longrightarrow> apply_ops ops M (ptr y) = M (ptr y)"
    and "\<forall>i. i < x1 - tc \<longrightarrow> apply_ops ops M (ptr (w + i)) = m (ptr (tc + i))"
    and "E \<noteq> [] \<longrightarrow> apply_ops ops M (ptr (w + (x1 - tc))) = TYPE_END"
    and "\<forall>y. w + (x1 - tc) < y \<and> y < 65536 \<longrightarrow> apply_ops ops M (ptr y) = M (ptr y)"
    and "E = [] \<longrightarrow> apply_ops ops M (ptr (w + (x1 - tc))) = M (ptr (w + (x1 - tc)))"
    and "\<forall>k<length ops. \<forall>y. y \<le> w \<longrightarrow> apply_ops (take k ops) M (ptr y) = M (ptr y)"
proof -
  define L where "L = x1 - tc"
  define M0 where "M0 = apply_ops cs M"
  define M1 where "M1 = apply_ops (cs @ E) M"
  have L: "0 < L" "tc + L = x1" "x1 - Suc tc = L - 1" using ord by (simp_all add: L_def)
  have wL: "w + L < 65535" using ord L by arith
  have M0: "M0 (ptr y) = (if w < y \<and> y < w + L then m (ptr (tc + (y - w))) else M (ptr y))"
    if y: "y < 65536" for y
  proof (cases "w < y \<and> y < w + L")
    case True
    then have i: "Suc tc + (y - Suc w) = tc + (y - w)" by arith
    from True ord L have "w < tc + (y - w)" "tc + (y - w) < 65536" by arith+
    with same have "M (ptr (tc + (y - w))) = m (ptr (tc + (y - w)))" by blast
    moreover from True L have "Suc w \<le> y \<and> y < Suc w + (x1 - Suc tc)" by arith
    ultimately show ?thesis using True by (simp only: M0_def ap [OF y] i if_True)
  next
    case False
    with L have "\<not> (Suc w \<le> y \<and> y < Suc w + (x1 - Suc tc))" by arith
    with False show ?thesis by (simp only: M0_def ap [OF y] if_False)
  qed
  have M1: "M1 (ptr y) = (if E \<noteq> [] \<and> y = w + L then TYPE_END else M0 (ptr y))"
    if y: "y < 65536" for y
  proof (cases "E = []")
    case True
    then show ?thesis by (simp add: M1_def M0_def)
  next
    case False
    with E have E': "E = [Write (ptr (w + L)) TYPE_END]" by (simp add: L_def)
    have "M1 = M0(ptr (w + L) := TYPE_END)"
      by (simp add: M1_def M0_def E' apply_ops_append) (simp add: apply_ops_def)
    with False y wL show ?thesis by (simp add: ptr_inj)
  qed
  have ops': "apply_ops ops M = M1(ptr w := m (ptr tc))"
    unfolding ops M1_def using apply_ops_snoc_write [of "cs @ E"] by simp
  have full: "apply_ops ops M (ptr y) =
      (if y = w then m (ptr tc) else if E \<noteq> [] \<and> y = w + L then TYPE_END
       else if w < y \<and> y < w + L then m (ptr (tc + (y - w))) else M (ptr y))"
    if y: "y < 65536" for y
  proof -
    from y ord have "(ptr y = ptr w) = (y = w)" by (intro ptr_inj) simp_all
    then show ?thesis by (simp add: ops' M1 [OF y] M0 [OF y])
  qed
  show "\<forall>y. y < w \<longrightarrow> apply_ops ops M (ptr y) = M (ptr y)"
  proof (intro allI impI)
    fix y assume "y < w"
    with ord have "y < 65536" by simp
    from full [OF this] \<open>y < w\<close> show "apply_ops ops M (ptr y) = M (ptr y)" by simp
  qed
  show "\<forall>i. i < x1 - tc \<longrightarrow> apply_ops ops M (ptr (w + i)) = m (ptr (tc + i))"
  proof (intro allI impI)
    fix i assume "i < x1 - tc"
    then have i: "i < L" by (simp add: L_def)
    with wL have "w + i < 65536" by simp
    from full [OF this] i show "apply_ops ops M (ptr (w + i)) = m (ptr (tc + i))" by simp
  qed
  show "E \<noteq> [] \<longrightarrow> apply_ops ops M (ptr (w + (x1 - tc))) = TYPE_END"
  proof
    assume "E \<noteq> []"
    from wL have "w + L < 65536" by simp
    from full [OF this] \<open>E \<noteq> []\<close> L(1) have "apply_ops ops M (ptr (w + L)) = TYPE_END"
      by simp
    then show "apply_ops ops M (ptr (w + (x1 - tc))) = TYPE_END"
      by (simp only: L_def)
  qed
  show "\<forall>y. w + (x1 - tc) < y \<and> y < 65536 \<longrightarrow> apply_ops ops M (ptr y) = M (ptr y)"
  proof (intro allI impI)
    fix y assume "w + (x1 - tc) < y \<and> y < 65536"
    then have y: "w + L < y" "y < 65536" by (simp_all add: L_def)
    from full [OF y(2)] y(1) show "apply_ops ops M (ptr y) = M (ptr y)" by simp
  qed
  show "E = [] \<longrightarrow> apply_ops ops M (ptr (w + (x1 - tc))) = M (ptr (w + (x1 - tc)))"
  proof
    assume "E = []"
    from wL have "w + L < 65536" by simp
    from full [OF this] \<open>E = []\<close> L(1) have "apply_ops ops M (ptr (w + L)) = M (ptr (w + L))"
      by simp
    then show "apply_ops ops M (ptr (w + (x1 - tc))) = M (ptr (w + (x1 - tc)))"
      by (simp only: L_def)
  qed
  show "\<forall>k<length ops. \<forall>y. y \<le> w \<longrightarrow> apply_ops (take k ops) M (ptr y) = M (ptr y)"
  proof (intro allI impI)
    fix k y assume k: "k < length ops" and y: "y \<le> w"
    have "ops = (cs @ E) @ [Write (ptr w) (m (ptr tc))]" by (simp add: ops)
    with k have tk: "take k ops = take k (cs @ E)" by simp
    have "\<forall>c\<in>set (cs @ E). op_within (Suc w) (Suc (w + L)) c"
    proof
      fix c assume "c \<in> set (cs @ E)"
      then consider "c \<in> set cs" | "c \<in> set E" by auto
      then show "op_within (Suc w) (Suc (w + L)) c"
      proof cases
        case 1
        with cs have "op_within (Suc w) (Suc w + (x1 - Suc tc)) c" by blast
        then show ?thesis using L by (auto intro: op_within_mono)
      next
        case 2
        with E have "c = Write (ptr (w + L)) TYPE_END" by (auto simp: L_def)
        with wL L(1) show ?thesis by (simp add: unat_ptr)
      qed
    qed
    then have "\<forall>c\<in>set (take k (cs @ E)). op_within (Suc w) (Suc (w + L)) c"
      by (meson in_set_takeD)
    moreover from y wL have "unat (ptr y) < Suc w"
      by (simp add: unat_ptr)
    moreover from wL have "Suc (w + L) < 65536" by simp
    ultimately show "apply_ops (take k ops) M (ptr y) = M (ptr y)"
      unfolding tk by (intro apply_ops_outside [where lo = "Suc w" and hi = "Suc (w + L)"]) auto
  qed
qed

section \<open>The loop of compress\<close>

lemma compact_chain: "compact_within a0 e M \<Longrightarrow> chain_within a0 e M"
  by (auto simp: compact_within_def chain_within_def)

lemma seg_nonempty: "seg m a xs b \<Longrightarrow> a < b \<Longrightarrow> xs \<noteq> []"
  by (cases xs) auto

lemma iteration_step:
  assumes e: "e < 65534"
    and s: "eeprom s = m" "new_end_macro s = ptr (Suc e)"
    and orig: "seg m x ys e" "rec_tag m e = TYPE_END"
    and w: "w < x" "a0 \<le> w"
    and cur: "seg M a0 zs w" "rec_tag M w = TYPE_END" "\<forall>z\<in>set zs. rec_tag M z \<noteq> TYPE_DELETED"
    and same: "\<forall>y. w < y \<and> y < 65536 \<longrightarrow> M (ptr y) = m (ptr y)"
  shows "\<exists>w1 x1 ops.
      compress_iteration s (ptr w) (ptr x) = Some (s\<lparr>queue := queue s @ ops\<rparr>, ptr w1, ptr x1)
      \<and> (\<forall>k<length ops. chain_within a0 e (apply_ops (take k ops) M))
      \<and> ((x1 = Suc e \<and> compact_within a0 e (apply_ops ops M))
         \<or> (x1 \<le> e \<and> (\<exists>ys1. seg m x1 ys1 e \<and> length ys1 < length ys) \<and> w1 < x1 \<and> a0 \<le> w1
            \<and> (\<exists>zs1. seg (apply_ops ops M) a0 zs1 w1
                    \<and> (\<forall>z\<in>set zs1. rec_tag (apply_ops ops M) z \<noteq> TYPE_DELETED))
            \<and> rec_tag (apply_ops ops M) w1 = TYPE_END
            \<and> (\<forall>y. w1 < y \<and> y < 65536 \<longrightarrow> apply_ops ops M (ptr y) = m (ptr y))))"
proof -
  from fnn_split [of s x ys e] s orig obtain ds ys' tc where
    sp1: "ys = ds @ ys'" "seg m x ds tc" "seg m tc ys' e"
      "rec_tag m tc \<noteq> TYPE_DELETED" "rec_tag m tc \<noteq> TYPE_CONTINUED"
    and fnn: "find_next_nondeleted s (ptr x) = Some (ptr tc)"
    by auto
  from fnd_split [of s tc ys' e] s orig sp1 obtain ls ys'' x'' where
    sp2: "ys' = ls @ ys''" "seg m tc ls x''" "seg m x'' ys'' e"
      "\<forall>l\<in>set ls. rec_tag m l \<noteq> TYPE_DELETED"
    and fc: "(ys'' = [] \<and> find_next_deleted s (ptr tc) = Some 0)
            \<or> (ys'' \<noteq> [] \<and> rec_tag m x'' = TYPE_DELETED
                \<and> find_next_deleted s (ptr tc) = Some (ptr x''))"
    by auto
  from seg_le [OF sp1(2)] seg_le [OF sp2(2)] seg_le [OF sp2(3)] w
  have ord0: "x \<le> tc" "tc \<le> x''" "x'' \<le> e" "w < tc" by simp_all
  define x1 where "x1 = (if ys'' = [] then Suc e else x'')"
  define w1 where "w1 = w + (x1 - tc)"
  define E where "E = (if ys'' = [] then [] else [Write (ptr w1) TYPE_END])"
  define ops where "ops cs = cs @ E @ [Write (ptr w) (m (ptr tc))]" for cs
  have tcx1: "tc < x1"
  proof (cases "ys'' = []")
    case True
    with ord0 show ?thesis by (simp add: x1_def)
  next
    case False
    with fc sp1(4) have "tc \<noteq> x''" by auto
    with ord0 False show ?thesis by (simp add: x1_def)
  qed
  have x1b: "x1 \<le> Suc e" "x1 < 65535" using ord0 e by (auto simp: x1_def)
  have nd: "find_next_deleted s (ptr tc) = Some (if ys'' = [] then 0 else ptr x'')"
    using fc by auto
  have nz: "ys'' \<noteq> [] \<Longrightarrow> ptr x'' \<noteq> 0"
    using ord0 e by (intro ptr_nonzero) simp_all
  have ne: "(ptr x1 = ptr (Suc e)) = (ys'' = [])"
  proof -
    have "(ptr x1 = ptr (Suc e)) = (x1 = Suc e)"
      using x1b e by (intro ptr_inj) simp_all
    with ord0 show ?thesis by (auto simp: x1_def)
  qed
  from compress_copy_nat [of "Suc w" "Suc tc" x1 s] ord0 tcx1 x1b obtain cs where
    cc: "compress_copy s (ptr (Suc w)) (ptr (Suc tc)) (ptr x1)
           = (s\<lparr>queue := queue s @ cs\<rparr>, ptr (Suc w + (x1 - Suc tc)), ptr x1)"
    and cw: "\<forall>c\<in>set cs. op_within (Suc w) (Suc w + (x1 - Suc tc)) c"
    and ca: "\<And>M y. y < 65536 \<Longrightarrow> apply_ops cs M (ptr y) =
            (if Suc w \<le> y \<and> y < Suc w + (x1 - Suc tc) then M (ptr (Suc tc + (y - Suc w)))
             else M (ptr y))"
    by auto
  from tcx1 have w1': "Suc w + (x1 - Suc tc) = w1" by (simp add: w1_def)
  have cc': "compress_copy s (ptr (Suc w)) (ptr (Suc tc)) (ptr x1)
           = (s\<lparr>queue := queue s @ cs\<rparr>, ptr w1, ptr x1)"
    using cc by (simp only: w1')
  have it: "compress_iteration s (ptr w) (ptr x)
              = Some (s\<lparr>queue := queue s @ ops cs\<rparr>, ptr w1, ptr x1)"
  proof (cases "ys'' = []")
    case True
    then have "x1 = Suc e" by (simp add: x1_def)
    with True show ?thesis
      using cc' s
      by (simp add: compress_iteration_def fnn nd Let_def ptr_Suc ops_def E_def
            eeprom__write_def eeprom__read_def)
  next
    case False
    then have "x1 = x''" by (simp add: x1_def)
    with False nz show ?thesis
      using cc' s ne
      by (simp add: compress_iteration_def fnn nd Let_def ptr_Suc ops_def E_def
            eeprom__write_def eeprom__read_def)
  qed
  have Ecases: "E = [] \<or> E = [Write (ptr (w + (x1 - tc))) TYPE_END]"
    by (simp add: E_def w1_def)
  note sc = span_copied [OF cw ca ord0(4) tcx1 x1b(2) same Ecases ops_def [of cs]]
  let ?M1 = "apply_ops (ops cs) M"
  have pre: "\<forall>k<length (ops cs). chain_within a0 e (apply_ops (take k (ops cs)) M)"
  proof (intro allI impI)
    fix k assume k: "k < length (ops cs)"
    let ?Mk = "apply_ops (take k (ops cs)) M"
    from sc(6) k have fr: "\<forall>y. y \<le> w \<longrightarrow> ?Mk (ptr y) = M (ptr y)" by blast
    then have "seg ?Mk a0 zs w" by (intro seg_frame [OF cur(1)]) simp
    moreover from fr cur(2) have "rec_tag ?Mk w = TYPE_END" by (simp add: rec_tag_def)
    moreover from w ord0 have "w \<le> e" by simp
    ultimately show "chain_within a0 e ?Mk" unfolding chain_within_def by blast
  qed
  have z1: "seg ?M1 a0 zs w"
    using sc(1) by (intro seg_frame [OF cur(1)]) simp
  have z2: "\<forall>z\<in>set zs. rec_tag ?M1 z \<noteq> TYPE_DELETED"
  proof
    fix z assume z: "z \<in> set zs"
    have "rec_tag ?M1 z = rec_tag M z"
      using sc(1) by (intro seg_tags_frame [OF cur(1) _ z]) simp
    with cur(3) z show "rec_tag ?M1 z \<noteq> TYPE_DELETED" by simp
  qed
  have sh: "\<forall>i. i < x'' - tc \<longrightarrow> ?M1 (ptr (w + i)) = m (ptr (tc + i))"
    using sc(2) tcx1 ord0 by (auto simp: x1_def split: if_splits)
  let ?ls = "map (\<lambda>x. x - tc + w) ls"
  from seg_shift [OF sp2(2) sh] have l1: "seg ?M1 w ?ls (w + (x'' - tc))" .
  have l2: "\<forall>z\<in>set ?ls. rec_tag ?M1 z \<noteq> TYPE_DELETED"
  proof
    fix z assume "z \<in> set ?ls"
    then obtain l where l: "l \<in> set ls" "z = l - tc + w" by auto
    from seg_shift_tag [OF sp2(2) sh l(1)] sp2(4) l show "rec_tag ?M1 z \<noteq> TYPE_DELETED" by simp
  qed
  from z1 l1 have c1: "seg ?M1 a0 (zs @ ?ls) (w + (x'' - tc))"
    by (auto simp: seg_append)
  from z2 l2 have c2: "\<forall>z\<in>set (zs @ ?ls). rec_tag ?M1 z \<noteq> TYPE_DELETED" by auto
  show ?thesis
  proof (cases "ys'' = []")
    case True
    then have x1: "x1 = Suc e" and x'': "x'' = e" using sp2(3) by (simp_all add: x1_def)
    from ord0 x'' x1 have "e - tc < x1 - tc" by simp
    with sc(2) have "?M1 (ptr (w + (e - tc))) = m (ptr (tc + (e - tc)))" by blast
    with ord0 x'' orig(2) have "rec_tag ?M1 (w + (e - tc)) = TYPE_END"
      by (simp add: rec_tag_def)
    moreover from ord0 have "w + (e - tc) \<le> e" by simp
    ultimately have "compact_within a0 e ?M1"
      unfolding compact_within_def using c1 c2 x'' by blast
    with it pre x1 show ?thesis by blast
  next
    case False
    then have x1: "x1 = x''" by (simp add: x1_def)
    from False have En: "E \<noteq> []" by (simp add: E_def)
    from seg_mem_bounds [OF sp2(3), of "hd ys''"] False have x''e: "x'' + 2 \<le> e" by simp
    from tcx1 x1 sp2(2) have "ls \<noteq> []" by (auto intro: seg_nonempty)
    then have len: "length ys'' < length ys" by (simp add: sp1(1) sp2(1))
    from sc(3) En have "rec_tag ?M1 w1 = TYPE_END" by (simp add: rec_tag_def w1_def)
    moreover from sc(4) same have "\<forall>y. w1 < y \<and> y < 65536 \<longrightarrow> ?M1 (ptr y) = m (ptr y)"
      by (simp add: w1_def)
    moreover from ord0 tcx1 have "w1 < x1" "a0 \<le> w1" using w by (simp_all add: w1_def)
    moreover from x''e have "x1 \<le> e" by (simp add: x1)
    moreover from c1 have "seg ?M1 a0 (zs @ ?ls) w1" by (simp add: w1_def x1)
    ultimately show ?thesis using it pre sp2(3) len c2 unfolding x1 by blast
  qed
qed

lemma compress_loop_exit:
  "new_end_macro s = nx \<Longrightarrow> compress_loop s w nx = Some s"
  by (subst compress_loop.simps) simp

lemma compress_loop_step:
  "new_end_macro s \<noteq> nx \<Longrightarrow> compress_iteration s w nx = Some (s', w', nx') \<Longrightarrow>
     compress_loop s w nx = compress_loop s' w' nx'"
  by (subst compress_loop.simps) simp

lemma compress_loop_correct:
  assumes e: "e < 65534"
  shows "eeprom s = m \<Longrightarrow> new_end_macro s = ptr (Suc e) \<Longrightarrow>
     seg m x ys e \<Longrightarrow> rec_tag m e = TYPE_END \<Longrightarrow> w < x \<Longrightarrow> a0 \<le> w \<Longrightarrow>
     seg M a0 zs w \<Longrightarrow> rec_tag M w = TYPE_END \<Longrightarrow> \<forall>z\<in>set zs. rec_tag M z \<noteq> TYPE_DELETED \<Longrightarrow>
     \<forall>y. w < y \<and> y < 65536 \<longrightarrow> M (ptr y) = m (ptr y) \<Longrightarrow>
     \<exists>ops. compress_loop s (ptr w) (ptr x) = Some (s\<lparr>queue := queue s @ ops\<rparr>)
        \<and> (\<forall>k\<le>length ops. chain_within a0 e (apply_ops (take k ops) M))
        \<and> compact_within a0 e (apply_ops ops M)"
proof (induction "length ys" arbitrary: s x ys w zs M rule: less_induct)
  case less
  from seg_le [OF less.prems(3)] have xe: "x \<le> e" .
  with e have "ptr x \<noteq> ptr (Suc e)" by (simp add: ptr_inj)
  with less.prems(2) have nx: "new_end_macro s \<noteq> ptr x" by simp
  from iteration_step [OF e less.prems] obtain w1 x1 ops where
    it: "compress_iteration s (ptr w) (ptr x) = Some (s\<lparr>queue := queue s @ ops\<rparr>, ptr w1, ptr x1)"
    and pre: "\<forall>k<length ops. chain_within a0 e (apply_ops (take k ops) M)"
    and alt: "(x1 = Suc e \<and> compact_within a0 e (apply_ops ops M))
         \<or> (x1 \<le> e \<and> (\<exists>ys1. seg m x1 ys1 e \<and> length ys1 < length ys) \<and> w1 < x1 \<and> a0 \<le> w1
            \<and> (\<exists>zs1. seg (apply_ops ops M) a0 zs1 w1
                    \<and> (\<forall>z\<in>set zs1. rec_tag (apply_ops ops M) z \<noteq> TYPE_DELETED))
            \<and> rec_tag (apply_ops ops M) w1 = TYPE_END
            \<and> (\<forall>y. w1 < y \<and> y < 65536 \<longrightarrow> apply_ops ops M (ptr y) = m (ptr y)))"
    by blast
  let ?s1 = "s\<lparr>queue := queue s @ ops\<rparr>"
  let ?M1 = "apply_ops ops M"
  have st: "compress_loop s (ptr w) (ptr x) = compress_loop ?s1 (ptr w1) (ptr x1)"
    by (rule compress_loop_step [OF nx it])
  from alt show ?case
  proof (elim disjE conjE exE)
    assume x1: "x1 = Suc e" and c: "compact_within a0 e ?M1"
    from less.prems(2) x1 have "compress_loop ?s1 (ptr w1) (ptr x1) = Some ?s1"
      by (intro compress_loop_exit) simp
    moreover have "\<forall>k\<le>length ops. chain_within a0 e (apply_ops (take k ops) M)"
    proof (intro allI impI)
      fix k assume "k \<le> length ops"
      then consider "k < length ops" | "k = length ops" by arith
      then show "chain_within a0 e (apply_ops (take k ops) M)"
        using pre c by cases (auto intro: compact_chain)
    qed
    ultimately show ?thesis using st c by auto
  next
    fix ys1 zs1
    assume h: "x1 \<le> e" "seg m x1 ys1 e" "length ys1 < length ys" "w1 < x1" "a0 \<le> w1"
      "seg ?M1 a0 zs1 w1" "\<forall>z\<in>set zs1. rec_tag ?M1 z \<noteq> TYPE_DELETED"
      "rec_tag ?M1 w1 = TYPE_END" "\<forall>y. w1 < y \<and> y < 65536 \<longrightarrow> ?M1 (ptr y) = m (ptr y)"
    have s1: "eeprom ?s1 = m" "new_end_macro ?s1 = ptr (Suc e)"
      using less.prems(1,2) by simp_all
    from less.hyps [OF h(3) s1 h(2) less.prems(4) h(4) h(5) h(6) h(8) h(7) h(9)]
    obtain ops2 where
      r: "compress_loop ?s1 (ptr w1) (ptr x1) = Some (?s1\<lparr>queue := queue ?s1 @ ops2\<rparr>)"
      and pre2: "\<forall>k\<le>length ops2. chain_within a0 e (apply_ops (take k ops2) ?M1)"
      and c: "compact_within a0 e (apply_ops ops2 ?M1)"
      by blast
    have 1: "compress_loop s (ptr w) (ptr x) = Some (s\<lparr>queue := queue s @ (ops @ ops2)\<rparr>)"
      by (simp add: st r)
    have 2: "\<forall>k\<le>length (ops @ ops2). chain_within a0 e (apply_ops (take k (ops @ ops2)) M)"
    proof (intro allI impI)
      fix k assume k: "k \<le> length (ops @ ops2)"
      show "chain_within a0 e (apply_ops (take k (ops @ ops2)) M)"
      proof (cases "k < length ops")
        case True
        with pre show ?thesis by simp
      next
        case False
        then have "take k (ops @ ops2) = ops @ take (k - length ops) ops2" by simp
        moreover from k False have "k - length ops \<le> length ops2" by simp
        ultimately show ?thesis using pre2 by (simp add: apply_ops_append)
      qed
    qed
    have 3: "compact_within a0 e (apply_ops (ops @ ops2) M)"
      using c by (simp add: apply_ops_append)
    from 1 2 3 show ?thesis by blast
  qed
qed

lemma compact_find_none:
  assumes "compact_within a0 e (eeprom s)"
  shows "find_next_deleted s (ptr a0) = Some 0"
proof -
  from assms obtain zs e' where h: "seg (eeprom s) a0 zs e'" "rec_tag (eeprom s) e' = TYPE_END"
    "\<forall>z\<in>set zs. rec_tag (eeprom s) z \<noteq> TYPE_DELETED"
    by (auto simp: compact_within_def)
  from fnd_skip [OF h(1) h(3)] fnd_end [OF h(2)] show ?thesis by simp
qed

lemma compress_general:
  assumes ma: "macro_area opts (eeprom s) xs e" and nem: "new_end_macro s = ptr (Suc e)"
  shows "\<exists>ops. compress opts s = Some (s\<lparr>queue := queue s @ ops\<rparr>)
        \<and> (\<forall>k\<le>length ops. chain_within (macros_start opts) e (apply_ops (take k ops) (eeprom s)))
        \<and> compact_within (macros_start opts) e (apply_ops ops (eeprom s))
        \<and> ((\<forall>x\<in>set xs. rec_tag (eeprom s) x \<noteq> TYPE_DELETED) \<longrightarrow> ops = [])"
proof -
  define m where "m = eeprom s"
  define a0 where "a0 = macros_start opts"
  from ma have sg: "seg m a0 xs e" and en: "rec_tag m e = TYPE_END" and e: "e < 65534"
    by (auto simp: macro_area_def m_def a0_def)
  have ch0: "chain_within a0 e m"
    unfolding chain_within_def using sg en by blast
  from fnd_split [of s a0 xs e] sg en obtain ls ys b where
    sp: "xs = ls @ ys" "seg m a0 ls b" "seg m b ys e" "\<forall>l\<in>set ls. rec_tag m l \<noteq> TYPE_DELETED"
    and fc: "(ys = [] \<and> find_next_deleted s (ptr a0) = Some 0)
            \<or> (ys \<noteq> [] \<and> rec_tag m b = TYPE_DELETED
                \<and> find_next_deleted s (ptr a0) = Some (ptr b))"
    unfolding m_def by blast
  from fc show ?thesis
  proof (elim disjE conjE)
    assume ys: "ys = []" and f: "find_next_deleted s (ptr a0) = Some 0"
    then have "compress opts s = Some s"
      by (simp add: compress_def macros_start_addr a0_def)
    moreover from ys sp sg en have "compact_within a0 e m"
      unfolding compact_within_def by auto
    ultimately show ?thesis
      using ch0 by (intro exI [of _ "[]"]) (simp add: apply_ops_def m_def a0_def)
  next
    assume ys: "ys \<noteq> []" and tb: "rec_tag m b = TYPE_DELETED"
      and f: "find_next_deleted s (ptr a0) = Some (ptr b)"
    from seg_le [OF sp(2)] seg_le [OF sp(3)] have ab: "a0 \<le> b" "b \<le> e" by simp_all
    have a0pos: "0 < a0" by (simp add: a0_def macros_start_def)
    with ab e have bnz: "ptr b \<noteq> 0" by (intro ptr_nonzero) simp_all
    from fnn_split [of s b ys e] sp(3) en obtain ds ys' x where
      sp2: "ys = ds @ ys'" "seg m b ds x" "seg m x ys' e"
        "rec_tag m x \<noteq> TYPE_DELETED"
      and fnn: "find_next_nondeleted s (ptr b) = Some (ptr x)"
      unfolding m_def by blast
    from seg_le [OF sp2(2)] tb sp2(4) have bx: "b < x" by (cases "b = x") auto
    let ?s0 = "s\<lparr>queue := queue s @ [Write (ptr b) TYPE_END]\<rparr>"
    let ?M = "m(ptr b := TYPE_END)"
    have c0: "compress opts s = compress_loop ?s0 (ptr b) (ptr x)"
      using f bnz fnn by (simp add: compress_def macros_start_addr a0_def eeprom__write_def)
    have fr: "\<forall>y. a0 \<le> y \<and> y < b \<longrightarrow> ?M (ptr y) = m (ptr y)"
      using ab e by (simp add: ptr_inj)
    have cur: "seg ?M a0 ls b" "rec_tag ?M b = TYPE_END" "\<forall>z\<in>set ls. rec_tag ?M z \<noteq> TYPE_DELETED"
    proof -
      show "seg ?M a0 ls b" by (rule seg_frame [OF sp(2) fr])
      show "rec_tag ?M b = TYPE_END" by (simp add: rec_tag_def)
      show "\<forall>z\<in>set ls. rec_tag ?M z \<noteq> TYPE_DELETED"
      proof
        fix z assume z: "z \<in> set ls"
        from seg_tags_frame [OF sp(2) fr z] sp(4) z show "rec_tag ?M z \<noteq> TYPE_DELETED" by metis
      qed
    qed
    have same: "\<forall>y. b < y \<and> y < 65536 \<longrightarrow> ?M (ptr y) = m (ptr y)"
      using ab e by (simp add: ptr_inj)
    have s0: "eeprom ?s0 = m" "new_end_macro ?s0 = ptr (Suc e)"
      using nem by (simp_all add: m_def)
    from compress_loop_correct [OF e s0 sp2(3) en bx ab(1) cur same] obtain ops where
      r: "compress_loop ?s0 (ptr b) (ptr x) = Some (?s0\<lparr>queue := queue ?s0 @ ops\<rparr>)"
      and pre: "\<forall>k\<le>length ops. chain_within a0 e (apply_ops (take k ops) ?M)"
      and c: "compact_within a0 e (apply_ops ops ?M)"
      by blast
    let ?ops = "Write (ptr b) TYPE_END # ops"
    have 1: "compress opts s = Some (s\<lparr>queue := queue s @ ?ops\<rparr>)"
      by (simp add: c0 r)
    have 2: "\<forall>k\<le>length ?ops. chain_within a0 e (apply_ops (take k ?ops) m)"
    proof (intro allI impI)
      fix k assume k: "k \<le> length ?ops"
      show "chain_within a0 e (apply_ops (take k ?ops) m)"
      proof (cases k)
        case 0
        with ch0 show ?thesis by (simp add: apply_ops_def)
      next
        case (Suc j)
        with k have "j \<le> length ops" by simp
        with pre have "chain_within a0 e (apply_ops (take j ops) ?M)" by blast
        then show ?thesis by (simp add: Suc apply_ops_def)
      qed
    qed
    have 3: "compact_within a0 e (apply_ops ?ops m)"
      using c by (simp add: apply_ops_def)
    have 4: "\<not> (\<forall>x\<in>set xs. rec_tag m x \<noteq> TYPE_DELETED)"
    proof -
      from ys sp(3) have "b \<in> set ys" by (cases ys) auto
      with sp(1) tb show ?thesis by auto
    qed
    from 1 2 3 4 show ?thesis unfolding m_def a0_def by blast
  qed
qed

lemma compress_copy_zero: "compress_copy s t nx nx = (s, t, nx)"
  by (subst compress_copy.simps) simp

lemma compress_copy_one:
  "nx - f \<noteq> 0 \<Longrightarrow> nx - f \<le> 0xFF \<Longrightarrow>
     compress_copy s t f nx = (eeprom__copy s t f (ucast (nx - f)), t + (nx - f), nx)"
  by (subst compress_copy.simps) (simp add: Let_def compress_copy_zero not_less [symmetric])

lemma compress_copy_record:
  assumes "2 \<le> l" "l \<le> 255" "c + l < 65536"
  shows "compress_copy s (ptr (Suc b)) (ptr (Suc c)) (ptr (c + l))
           = (s\<lparr>queue := queue s @ [Copy (ptr (Suc b)) (ptr (Suc c)) (of_nat (l - 1))]\<rparr>,
              ptr (b + l), ptr (c + l))"
proof -
  define n where "n = l - 1"
  with assms have l: "l = Suc n" and n: "0 < n" "n < 255" "n < 65536" by simp_all
  have d: "ptr (c + l) - ptr (Suc c) = ptr n"
    by (simp add: ptr_diff l)
  from n have u: "unat (ptr n) = n" by (simp add: unat_ptr)
  then have nz: "ptr n \<noteq> 0" using n by (auto simp: unat_eq_zero [symmetric])
  from u n have le: "ptr n \<le> 0xFF" by (simp add: word_le_nat_alt)
  have uc: "(ucast (ptr n) :: byte) = of_nat n"
    using n u
    by (simp add: word_unat_eq_iff unsigned_ucast_eq unat_of_nat take_bit_nat_eq_self)
  have t: "ptr (Suc b) + ptr n = ptr (b + l)"
    by (simp add: ptr_def l)
  have "compress_copy s (ptr (Suc b)) (ptr (Suc c)) (ptr (c + l))
          = (eeprom__copy s (ptr (Suc b)) (ptr (Suc c)) (ucast (ptr n)), ptr (Suc b) + ptr n, ptr (c + l))"
    using compress_copy_one [of "ptr (c + l)" "ptr (Suc c)" s "ptr (Suc b)"] nz le
    by (simp add: d)
  then have "compress_copy s (ptr (Suc b)) (ptr (Suc c)) (ptr (c + l))
          = (s\<lparr>queue := queue s @ [Copy (ptr (Suc b)) (ptr (Suc c)) (of_nat n)]\<rparr>,
             ptr (b + l), ptr (c + l))"
    by (simp only: uc t eeprom__copy_def)
  then show ?thesis
    by (simp only: n_def)
qed

lemma iteration_ABCD:
  assumes ma: "macro_area opts (eeprom s) [A, B, C, D] e"
    and tags: "rec_tag (eeprom s) A = TYPE_VALID_MACRO" "rec_tag (eeprom s) B = TYPE_DELETED"
      "rec_tag (eeprom s) C = TYPE_VALID_MACRO" "rec_tag (eeprom s) D = TYPE_DELETED"
    and nem: "new_end_macro s = ptr (Suc e)"
  shows "compress_iteration (s\<lparr>queue := q\<rparr>) (ptr B) (ptr C) =
           Some (s\<lparr>queue := q @
                   [Copy (ptr (Suc B)) (ptr (Suc C)) (of_nat (rec_len (eeprom s) C - 1)),
                    Write (ptr (B + rec_len (eeprom s) C)) TYPE_END,
                    Write (ptr B) TYPE_VALID_MACRO]\<rparr>,
                 ptr (B + rec_len (eeprom s) C), ptr D)"
proof -
  define m where "m = eeprom s"
  define lc where "lc = rec_len m C"
  define s0 where "s0 = s\<lparr>queue := q\<rparr>"
  from ma have D: "D = C + lc" and e: "e = D + rec_len m D"
    and len: "2 \<le> lc" "2 \<le> rec_len m D" and eb: "e \<le> 1023"
    by (auto simp: macro_area_def m_def lc_def)
  have "unat (m (ptr C + 1)) < 2 ^ LENGTH(8)" by (rule unsigned_less)
  then have lc255: "lc \<le> 255"
    by (simp add: lc_def rec_len_def)
  have pos: "0 < D" "D < e" using len D e by simp_all
  note t = tags [folded m_def]
  have es: "eeprom s0 = m" "new_end_macro s0 = ptr (Suc e)" "queue s0 = q"
    using nem by (simp_all add: s0_def m_def)
  have n2: "find_next_nondeleted s0 (ptr C) = Some (ptr C)"
    using fnn_stop [of s0 C] t es by simp
  have f2: "find_next_deleted s0 (ptr C) = Some (ptr D)"
    using fnd_step [of s0 C] fnd_deleted [of s0 D] t es by (simp add: D lc_def)
  have dnz: "ptr D \<noteq> 0" using pos eb by (intro ptr_nonzero) simp_all
  have ne1: "ptr D \<noteq> ptr (Suc e)"
    using pos eb by (simp add: ptr_inj)
  have cp: "compress_copy s0 (ptr (Suc B)) (ptr (Suc C)) (ptr D)
           = (s0\<lparr>queue := queue s0 @ [Copy (ptr (Suc B)) (ptr (Suc C)) (of_nat (lc - 1))]\<rparr>,
              ptr (B + lc), ptr D)"
    unfolding D using len lc255 pos eb by (intro compress_copy_record) (simp_all add: D e)
  have "compress_iteration s0 (ptr B) (ptr C) =
           Some (s0\<lparr>queue := queue s0 @
                   [Copy (ptr (Suc B)) (ptr (Suc C)) (of_nat (lc - 1)),
                    Write (ptr (B + lc)) TYPE_END,
                    Write (ptr B) TYPE_VALID_MACRO]\<rparr>,
                 ptr (B + lc), ptr D)"
    using t(3)
    by (simp add: compress_iteration_def n2 f2 dnz Let_def ptr_Suc cp es(1,2) ne1
          eeprom__read_def rec_tag_def)
       (simp add: eeprom__write_def)
  then show ?thesis
    by (simp add: s0_def lc_def m_def)
qed

lemma compress_ABCD:
  assumes ma: "macro_area opts (eeprom s) [A, B, C, D] e"
    and tags: "rec_tag (eeprom s) A = TYPE_VALID_MACRO" "rec_tag (eeprom s) B = TYPE_DELETED"
      "rec_tag (eeprom s) C = TYPE_VALID_MACRO" "rec_tag (eeprom s) D = TYPE_DELETED"
    and nem: "new_end_macro s = ptr (Suc e)"
  shows "compress opts s = Some (s\<lparr>queue := queue s @
           [Write (ptr B) TYPE_END,
            Copy (ptr (Suc B)) (ptr (Suc C)) (of_nat (rec_len (eeprom s) C - 1)),
            Write (ptr (B + rec_len (eeprom s) C)) TYPE_END,
            Write (ptr B) TYPE_VALID_MACRO,
            Write (ptr (B + rec_len (eeprom s) C)) TYPE_END]\<rparr>)"
proof -
  define m where "m = eeprom s"
  define lc where "lc = rec_len m C"
  from ma have A: "A = macros_start opts" and B: "B = A + rec_len m A"
    and C: "C = B + rec_len m B" and D: "D = C + lc" and e: "e = D + rec_len m D"
    and len: "2 \<le> rec_len m A" "2 \<le> rec_len m B" "2 \<le> lc" "2 \<le> rec_len m D"
    and en: "rec_tag m e = TYPE_END" and eb: "e \<le> 1023"
    by (auto simp: macro_area_def m_def lc_def)
  have pos: "0 < B" "B < C" "C < D" "D < e" using len B C D e by simp_all
  note t = tags [folded m_def]
  have f1: "find_next_deleted s (ptr A) = Some (ptr B)"
    using fnd_step [of s A] fnd_deleted [of s B] t by (simp add: m_def [symmetric] B)
  have bnz: "ptr B \<noteq> 0" using pos eb by (intro ptr_nonzero) simp_all
  have n1: "find_next_nondeleted s (ptr B) = Some (ptr C)"
    using fnn_step [of s B] fnn_stop [of s C] t by (simp add: C m_def [symmetric])
  have n3: "find_next_nondeleted s' (ptr D) = Some (ptr e)" if "eeprom s' = m" for s'
    using fnn_step [of s' D] fnn_stop [of s' e] t en that by (simp add: e)
  have f3: "find_next_deleted s' (ptr e) = Some 0" if "eeprom s' = m" for s'
    using fnd_end [of s' e] en that by simp
  have ne1: "ptr C \<noteq> ptr (Suc e)" "ptr D \<noteq> ptr (Suc e)"
    using pos eb by (simp_all add: ptr_inj)
  define s0 where "s0 = s\<lparr>queue := queue s @ [Write (ptr B) TYPE_END]\<rparr>"
  define s1 where "s1 = s\<lparr>queue := queue s @
           [Write (ptr B) TYPE_END, Copy (ptr (Suc B)) (ptr (Suc C)) (of_nat (lc - 1)),
            Write (ptr (B + lc)) TYPE_END, Write (ptr B) TYPE_VALID_MACRO]\<rparr>"
  define s2 where "s2 = s\<lparr>queue := queue s @
           [Write (ptr B) TYPE_END, Copy (ptr (Suc B)) (ptr (Suc C)) (of_nat (lc - 1)),
            Write (ptr (B + lc)) TYPE_END, Write (ptr B) TYPE_VALID_MACRO,
            Write (ptr (B + lc)) TYPE_END]\<rparr>"
  have es: "eeprom s0 = m" "eeprom s1 = m" "new_end_macro s0 = ptr (Suc e)"
    "new_end_macro s1 = ptr (Suc e)" "new_end_macro s2 = ptr (Suc e)"
    using nem by (simp_all add: s0_def s1_def s2_def m_def)
  have c0: "compress opts s = compress_loop s0 (ptr B) (ptr C)"
    using f1 bnz n1
    by (simp add: compress_def macros_start_addr A [symmetric] eeprom__write_def s0_def)
  have i1: "compress_iteration s0 (ptr B) (ptr C) = Some (s1, ptr (B + lc), ptr D)"
    using iteration_ABCD [OF ma tags nem, of "queue s @ [Write (ptr B) TYPE_END]"]
    by (simp add: s0_def s1_def lc_def m_def)
  have i2: "compress_iteration s1 (ptr (B + lc)) (ptr D) = Some (s2, ptr (Suc (B + lc)), ptr (Suc e))"
    using en
    by (simp add: compress_iteration_def n3 [OF es(2)] f3 [OF es(2)] Let_def ptr_Suc
          compress_copy_zero es eeprom__read_def rec_tag_def)
       (simp add: eeprom__write_def s1_def s2_def)
  have "compress_loop s0 (ptr B) (ptr C) = compress_loop s1 (ptr (B + lc)) (ptr D)"
    using ne1 es by (intro compress_loop_step [OF _ i1]) simp
  also have "\<dots> = compress_loop s2 (ptr (Suc (B + lc))) (ptr (Suc e))"
    using ne1 es by (intro compress_loop_step [OF _ i2]) simp
  also have "\<dots> = Some s2"
    using es by (intro compress_loop_exit) simp
  finally show ?thesis
    by (simp add: c0 s2_def lc_def m_def)
qed

section \<open>Properties of compress\<close>

lemma ptr_numeral [simp]: "ptr (numeral n) = numeral n" "ptr 0 = 0" "ptr (Suc 0) = 1"
  by (simp_all add: ptr_def)

lemma opts0_simps [simp]: "macros_start opts0 = 5" "EEMEM_END opts0 = 1023" "EEMEM_START opts0 = 0"
  by (simp_all add: macros_start_def opts0_def EEMEM_START_def EEMEM_END_def)

lemma area_example_ok: "macro_area opts0 area_example [5, 8, 10, 14] 17"
  by (simp add: macro_area_def rec_tag_def rec_len_def area_example_def
      TYPE_DELETED_def TYPE_VALID_MACRO_def TYPE_CONTINUED_def TYPE_END_def)

lemma area_example_tags:
  "rec_tag area_example 5 = TYPE_VALID_MACRO" "rec_tag area_example 8 = TYPE_DELETED"
  "rec_tag area_example 10 = TYPE_VALID_MACRO" "rec_tag area_example 14 = TYPE_DELETED"
  "rec_tag area_example 17 = TYPE_END"
  "rec_len area_example 5 = 3" "rec_len area_example 10 = 4"
  by (simp_all add: rec_tag_def rec_len_def area_example_def
      TYPE_DELETED_def TYPE_VALID_MACRO_def TYPE_CONTINUED_def TYPE_END_def)

lemma store_example_simps [simp]:
  "eeprom store_example = area_example" "queue store_example = []"
  "end_macro store_example = 17" "new_end_macro store_example = 18"
  by (simp_all add: store_example_def)

lemma compress_example:
  "compress opts0 store_example = Some (store_example\<lparr>queue :=
      [Write 8 TYPE_END, Copy 9 11 3, Write 12 TYPE_END, Write 8 TYPE_VALID_MACRO,
       Write 12 TYPE_END]\<rparr>)"
  using compress_ABCD [of opts0 store_example 5 8 10 14 17]
  by (simp add: area_example_ok area_example_tags)

lemma chain_within_area:
  assumes "macro_area opts m xs e" and "chain_within (macros_start opts) e M"
  shows "\<exists>zs e'. macro_area opts M zs e'"
proof -
  from assms(2) obtain zs e' where "seg M (macros_start opts) zs e'" "rec_tag M e' = TYPE_END" "e' \<le> e"
    by (auto simp: chain_within_def)
  with assms(1) have "macro_area opts M zs e'" by (simp add: macro_area_def)
  then show ?thesis by blast
qed

text \<open>
  C2 (always parseable). Called on a well-formed area, with \<open>new_end_macro\<close> just past the
  end macro, \<open>compress\<close> returns, and after any number of the operations it has queued
  have been applied, in the order of the queue, the area is well formed again.
\<close>

theorem compress_always_parseable:
  assumes "macro_area opts (eeprom s) xs e" and "new_end_macro s = ptr (Suc e)"
  shows "\<exists>ops. compress opts s = Some (s\<lparr>queue := queue s @ ops\<rparr>)
          \<and> (\<forall>k\<le>length ops. \<exists>zs e'. macro_area opts (apply_ops (take k ops) (eeprom s)) zs e')"
proof -
  from compress_general [OF assms] obtain ops where
    c: "compress opts s = Some (s\<lparr>queue := queue s @ ops\<rparr>)"
    and p: "\<forall>k\<le>length ops. chain_within (macros_start opts) e (apply_ops (take k ops) (eeprom s))"
    by blast
  from p chain_within_area [OF assms(1)]
  have "\<forall>k\<le>length ops. \<exists>zs e'. macro_area opts (apply_ops (take k ops) (eeprom s)) zs e'"
    by blast
  with c show ?thesis by blast
qed

theorem compress_always_parseable_witness:
  "macro_area opts0 (eeprom store_example) [5, 8, 10, 14] 17
   \<and> new_end_macro store_example = ptr (Suc 17)
   \<and> compress opts0 store_example = Some (store_example\<lparr>queue :=
        [Write 8 TYPE_END, Copy 9 11 3, Write 12 TYPE_END, Write 8 TYPE_VALID_MACRO,
         Write 12 TYPE_END]\<rparr>)
   \<and> (\<exists>ops. compress opts0 store_example = Some (store_example\<lparr>queue := queue store_example @ ops\<rparr>)
          \<and> (\<forall>k\<le>length ops.
                \<exists>zs e'. macro_area opts0 (apply_ops (take k ops) (eeprom store_example)) zs e'))"
proof -
  have a: "macro_area opts0 (eeprom store_example) [5, 8, 10, 14] 17"
    by (simp add: area_example_ok)
  have b: "new_end_macro store_example = ptr (Suc 17)"
    by (simp add: ptr_def)
  from compress_always_parseable [OF a b] a b compress_example show ?thesis by blast
qed

text \<open>
  C8 (idempotence). In a well-formed area with no deleted macro \<open>compress\<close> queues
  nothing. After a first \<open>compress\<close> whose writes have been applied, a second one queues
  nothing, so the EEPROM is the same after it.
\<close>

theorem compress_idempotent:
  assumes "macro_area opts (eeprom s) xs e"
  shows "((\<forall>x\<in>set xs. rec_tag (eeprom s) x \<noteq> TYPE_DELETED) \<longrightarrow> compress opts s = Some s)
       \<and> (new_end_macro s = ptr (Suc e) \<and> queue s = [] \<longrightarrow>
            (\<exists>s1. compress opts s = Some s1
                \<and> compress opts (flush s1) = Some (flush s1)
                \<and> eeprom (flush (flush s1)) = eeprom (flush s1)))"
proof (intro conjI impI)
  assume nd: "\<forall>x\<in>set xs. rec_tag (eeprom s) x \<noteq> TYPE_DELETED"
  from assms have sg: "seg (eeprom s) (macros_start opts) xs e"
    and en: "rec_tag (eeprom s) e = TYPE_END"
    by (simp_all add: macro_area_def)
  from fnd_skip [OF sg nd] fnd_end [OF en]
  have "find_next_deleted s (ptr (macros_start opts)) = Some 0" by simp
  then show "compress opts s = Some s"
    by (simp add: compress_def macros_start_addr)
next
  assume "new_end_macro s = ptr (Suc e) \<and> queue s = []"
  then have nem: "new_end_macro s = ptr (Suc e)" and q: "queue s = []" by simp_all
  from compress_general [OF assms nem] obtain ops where
    c: "compress opts s = Some (s\<lparr>queue := queue s @ ops\<rparr>)"
    and k: "compact_within (macros_start opts) e (apply_ops ops (eeprom s))"
    by blast
  let ?s1 = "s\<lparr>queue := queue s @ ops\<rparr>"
  have e1: "eeprom (flush ?s1) = apply_ops ops (eeprom s)"
    using q by (simp add: flush_def)
  with k have "find_next_deleted (flush ?s1) (ptr (macros_start opts)) = Some 0"
    by (intro compact_find_none [where e = e]) simp
  then have 2: "compress opts (flush ?s1) = Some (flush ?s1)"
    by (simp add: compress_def macros_start_addr)
  have 3: "eeprom (flush (flush ?s1)) = eeprom (flush ?s1)"
    by (simp add: flush_def apply_ops_def)
  from c 2 3 show "\<exists>s1. compress opts s = Some s1
                \<and> compress opts (flush s1) = Some (flush s1)
                \<and> eeprom (flush (flush s1)) = eeprom (flush s1)"
    by blast
qed

lemma copy_bytes_nat:
  assumes "dst < src" "src + n < 65536" "y < 65536"
  shows "copy_bytes M (ptr dst) (ptr src) n (ptr y) =
           (if dst \<le> y \<and> y < dst + n then M (ptr (src + (y - dst))) else M (ptr y))"
proof -
  from assms have u: "unat (ptr dst) = dst" "unat (ptr src) = src" "unat (ptr y) = y"
    by (simp_all add: unat_ptr)
  have "copy_bytes M (ptr dst) (ptr src) n (ptr y) =
       (if dst \<le> y \<and> y < dst + n then M (ptr src + (ptr y - ptr dst)) else M (ptr y))"
    using copy_bytes_shift [of "ptr dst" "ptr src" n M "ptr y"] assms by (simp add: u)
  moreover have "dst \<le> y \<Longrightarrow> ptr src + (ptr y - ptr dst) = ptr (src + (y - dst))"
    by (simp add: ptr_diff ptr_def)
  ultimately show ?thesis by simp
qed

lemma compacted_ABCD:
  assumes ord: "B < C" "2 \<le> lc" "lc \<le> 255" "C + lc < 65536"
    and tag: "m (ptr C) = TYPE_VALID_MACRO"
    and y: "y < 65536"
  shows "apply_ops [Write (ptr B) TYPE_END,
                    Copy (ptr (Suc B)) (ptr (Suc C)) (of_nat (lc - 1)),
                    Write (ptr (B + lc)) TYPE_END,
                    Write (ptr B) TYPE_VALID_MACRO,
                    Write (ptr (B + lc)) TYPE_END] m (ptr y)
         = (if y = B + lc then TYPE_END
            else if B \<le> y \<and> y < B + lc then m (ptr (C + (y - B)))
            else m (ptr y))"
proof -
  define n where "n = lc - 1"
  with ord have lc: "lc = Suc n" and n: "n < 255" by simp_all
  from n have un: "unat (of_nat n :: byte) = n" by (simp add: unat_of_nat)
  define m1 where "m1 = m(ptr B := TYPE_END)"
  define m2 where "m2 = copy_bytes m1 (ptr (Suc B)) (ptr (Suc C)) n"
  have all: "apply_ops [Write (ptr B) TYPE_END,
                    Copy (ptr (Suc B)) (ptr (Suc C)) (of_nat n),
                    Write (ptr (B + lc)) TYPE_END,
                    Write (ptr B) TYPE_VALID_MACRO,
                    Write (ptr (B + lc)) TYPE_END] m
       = m2(ptr (B + lc) := TYPE_END, ptr B := TYPE_VALID_MACRO, ptr (B + lc) := TYPE_END)"
    by (simp add: apply_ops_def un m1_def m2_def)
  have eqB: "(ptr y = ptr B) = (y = B)" and eqE: "(ptr y = ptr (B + lc)) = (y = B + lc)"
    using ord y by (simp_all add: ptr_inj)
  have cp: "m2 (ptr y) =
       (if Suc B \<le> y \<and> y < Suc B + n then m1 (ptr (Suc C + (y - Suc B))) else m1 (ptr y))"
    unfolding m2_def using ord y by (intro copy_bytes_nat) (simp_all add: lc)
  have src: "m1 (ptr (Suc C + (y - Suc B))) = m (ptr (C + (y - B)))"
    if a: "Suc B \<le> y" "y < Suc B + n"
  proof -
    from a have e: "Suc C + (y - Suc B) = C + (y - B)" by arith
    from a ord have "C + (y - B) \<noteq> B" "C + (y - B) < 65536" "B < 65536"
      by (simp_all add: lc)
    then have "ptr (C + (y - B)) \<noteq> ptr B" by (simp add: ptr_inj)
    then have "m1 (ptr (C + (y - B))) = m (ptr (C + (y - B)))" by (simp add: m1_def)
    then show ?thesis by (simp only: e)
  qed
  consider (e) "y = B + lc" | (b) "y = B" | (mid) "B < y" "y < B + lc" | (out) "y < B \<or> B + lc < y"
    by arith
  then have "(m2(ptr (B + lc) := TYPE_END, ptr B := TYPE_VALID_MACRO, ptr (B + lc) := TYPE_END)) (ptr y)
         = (if y = B + lc then TYPE_END
            else if B \<le> y \<and> y < B + lc then m (ptr (C + (y - B)))
            else m (ptr y))"
  proof cases
    case e
    then show ?thesis by simp
  next
    case b
    with eqE ord have "ptr B \<noteq> ptr (B + lc)" by simp
    with b ord tag show ?thesis by simp
  next
    case mid
    then have "Suc B \<le> y" "y < Suc B + n" by (simp_all add: lc)
    from src [OF this] this mid show ?thesis by (simp add: eqB eqE cp)
  next
    case out
    with ord have "\<not> (Suc B \<le> y \<and> y < Suc B + n)" "y \<noteq> B" "y \<noteq> B + lc"
      by (auto simp: lc)
    with out show ?thesis by (auto simp: eqB eqE cp m1_def)
  qed
  then show ?thesis by (simp only: all [unfolded n_def])
qed

lemma compress_ABCD_area:
  assumes ma: "macro_area opts (eeprom s) [A, B, C, D] e"
    and tags: "rec_tag (eeprom s) A = TYPE_VALID_MACRO" "rec_tag (eeprom s) B = TYPE_DELETED"
      "rec_tag (eeprom s) C = TYPE_VALID_MACRO" "rec_tag (eeprom s) D = TYPE_DELETED"
    and nem: "new_end_macro s = ptr (Suc e)" and q: "queue s = []"
  shows "\<exists>s'. compress opts s = Some s'
     \<and> macro_area opts (eeprom (flush s')) [A, B] (B + rec_len (eeprom s) C)
     \<and> rec_tag (eeprom (flush s')) A = TYPE_VALID_MACRO
     \<and> rec_tag (eeprom (flush s')) B = TYPE_VALID_MACRO
     \<and> (\<forall>i<rec_len (eeprom s) A. eeprom (flush s') (ptr (A + i)) = eeprom s (ptr (A + i)))
     \<and> (\<forall>i<rec_len (eeprom s) C. eeprom (flush s') (ptr (B + i)) = eeprom s (ptr (C + i)))
     \<and> rec_len (eeprom (flush s')) A = rec_len (eeprom s) A
     \<and> rec_len (eeprom (flush s')) B = rec_len (eeprom s) C
     \<and> A < B"
proof -
  define m where "m = eeprom s"
  define la where "la = rec_len m A"
  define lc where "lc = rec_len m C"
  define ops where "ops = [Write (ptr B) TYPE_END,
            Copy (ptr (Suc B)) (ptr (Suc C)) (of_nat (lc - 1)),
            Write (ptr (B + lc)) TYPE_END,
            Write (ptr B) TYPE_VALID_MACRO,
            Write (ptr (B + lc)) TYPE_END]"
  define s' where "s' = s\<lparr>queue := queue s @ ops\<rparr>"
  define m' where "m' = eeprom (flush s')"
  from ma have A: "A = macros_start opts" and B: "B = A + la"
    and C: "C = B + rec_len m B" and D: "D = C + lc" and e: "e = D + rec_len m D"
    and len: "2 \<le> la" "2 \<le> rec_len m B" "2 \<le> lc" "2 \<le> rec_len m D"
    and eb: "e \<le> unat (EEMEM_END opts)" "unat (EEMEM_END opts) \<le> 1023"
    by (auto simp: macro_area_def m_def la_def lc_def)
  have "unat (m (ptr C + 1)) < 2 ^ LENGTH(8)" by (rule unsigned_less)
  then have lc255: "lc \<le> 255" by (simp add: lc_def rec_len_def)
  have c: "compress opts s = Some s'"
    using compress_ABCD [OF ma tags nem] by (simp add: s'_def ops_def lc_def m_def)
  have m': "m' = apply_ops ops m"
    using q by (simp add: m'_def s'_def flush_def m_def)
  have F: "m' (ptr y) = (if y = B + lc then TYPE_END
            else if B \<le> y \<and> y < B + lc then m (ptr (C + (y - B)))
            else m (ptr y))" if "y < 65536" for y
    unfolding m' ops_def
    using len lc255 eb tags(3) that
    by (intro compacted_ABCD) (simp_all add: C D e rec_tag_def m_def)
  have small: "B + lc < 65536" "A < B" "Suc A < B" "Suc B < B + lc"
    using len eb by (simp_all add: B C D e)
  have bA: "\<forall>i<la. m' (ptr (A + i)) = m (ptr (A + i))"
  proof (intro allI impI)
    fix i assume "i < la"
    then have "A + i < B" by (simp add: B)
    with small F [of "A + i"] show "m' (ptr (A + i)) = m (ptr (A + i))" by simp
  qed
  have bC: "\<forall>i<lc. m' (ptr (B + i)) = m (ptr (C + i))"
  proof (intro allI impI)
    fix i assume "i < lc"
    with small F [of "B + i"] show "m' (ptr (B + i)) = m (ptr (C + i))" by simp
  qed
  have tA: "rec_tag m' A = TYPE_VALID_MACRO"
    using bA [rule_format, of 0] len tags(1) by (simp add: rec_tag_def m_def)
  have tB: "rec_tag m' B = TYPE_VALID_MACRO"
    using bC [rule_format, of 0] len tags(3) by (simp add: rec_tag_def m_def)
  have lA: "rec_len m' A = la"
    using bA [rule_format, of 1] len by (simp add: rec_len_Suc la_def)
  have lB: "rec_len m' B = lc"
    using bC [rule_format, of 1] len by (simp add: rec_len_Suc lc_def)
  have tE: "rec_tag m' (B + lc) = TYPE_END"
    using F [of "B + lc"] small by (simp add: rec_tag_def)
  have "B + lc \<le> e" using C D e by arith
  with eb have "B + lc \<le> unat (EEMEM_END opts)" by simp
  with tA tB lA lB tE len eb have area: "macro_area opts m' [A, B] (B + lc)"
    by (simp add: macro_area_def A [symmetric] B)
  from c area tA tB bA bC lA lB small(2) show ?thesis
    unfolding m'_def m_def la_def lc_def by blast
qed

text \<open>
  C3 (live data and order). For an area made of a valid macro \<open>A\<close>, a deleted \<open>B\<close>, a
  valid \<open>C\<close>, a deleted \<open>D\<close> and the end macro, after \<open>compress\<close> and its writes the
  area is \<open>A\<close>, then the bytes of \<open>C\<close> at the former place of \<open>B\<close>, then the end macro:
  every byte of \<open>A\<close> and of \<open>C\<close>, type and length included, is as before.
\<close>

theorem compress_preserves_live_data:
  assumes "macro_area opts (eeprom s) [A, B, C, D] e"
    and "rec_tag (eeprom s) A = TYPE_VALID_MACRO" and "rec_tag (eeprom s) B = TYPE_DELETED"
    and "rec_tag (eeprom s) C = TYPE_VALID_MACRO" and "rec_tag (eeprom s) D = TYPE_DELETED"
    and "new_end_macro s = ptr (Suc e)" and "queue s = []"
  shows "\<exists>s'. compress opts s = Some s'
     \<and> macro_area opts (eeprom (flush s')) [A, B] (B + rec_len (eeprom s) C)
     \<and> rec_tag (eeprom (flush s')) A = TYPE_VALID_MACRO
     \<and> rec_tag (eeprom (flush s')) B = TYPE_VALID_MACRO
     \<and> (\<forall>i<rec_len (eeprom s) A. eeprom (flush s') (ptr (A + i)) = eeprom s (ptr (A + i)))
     \<and> (\<forall>i<rec_len (eeprom s) C. eeprom (flush s') (ptr (B + i)) = eeprom s (ptr (C + i)))
     \<and> rec_len (eeprom (flush s')) A = rec_len (eeprom s) A
     \<and> rec_len (eeprom (flush s')) B = rec_len (eeprom s) C
     \<and> A < B"
  using assms by (rule compress_ABCD_area)

theorem compress_preserves_live_data_witness:
  "macro_area opts0 (eeprom store_example) [5, 8, 10, 14] 17
   \<and> rec_tag (eeprom store_example) 5 = TYPE_VALID_MACRO
   \<and> rec_tag (eeprom store_example) 8 = TYPE_DELETED
   \<and> rec_tag (eeprom store_example) 10 = TYPE_VALID_MACRO
   \<and> rec_tag (eeprom store_example) 14 = TYPE_DELETED
   \<and> new_end_macro store_example = ptr (Suc 17) \<and> queue store_example = []
   \<and> (\<exists>s'. compress opts0 store_example = Some s'
         \<and> macro_area opts0 (eeprom (flush s')) [5, 8] 12
         \<and> (\<forall>i<3. eeprom (flush s') (ptr (5 + i)) = area_example (ptr (5 + i)))
         \<and> (\<forall>i<4. eeprom (flush s') (ptr (8 + i)) = area_example (ptr (10 + i))))"
proof -
  have a: "macro_area opts0 (eeprom store_example) [5, 8, 10, 14] 17"
    by (simp add: area_example_ok)
  have t: "rec_tag (eeprom store_example) 5 = TYPE_VALID_MACRO"
    "rec_tag (eeprom store_example) 8 = TYPE_DELETED"
    "rec_tag (eeprom store_example) 10 = TYPE_VALID_MACRO"
    "rec_tag (eeprom store_example) 14 = TYPE_DELETED"
    by (simp_all add: area_example_tags)
  have b: "new_end_macro store_example = ptr (Suc 17)" by (simp add: ptr_def)
  have c: "queue store_example = []" by simp
  from compress_preserves_live_data [OF a t b c]
  have "\<exists>s'. compress opts0 store_example = Some s'
         \<and> macro_area opts0 (eeprom (flush s')) [5, 8] 12
         \<and> (\<forall>i<3. eeprom (flush s') (ptr (5 + i)) = area_example (ptr (5 + i)))
         \<and> (\<forall>i<4. eeprom (flush s') (ptr (8 + i)) = area_example (ptr (10 + i)))"
    by (simp add: area_example_tags) blast
  with a t b c show ?thesis by blast
qed

lemma area_compact_ok: "macro_area opts0 area_compact [5, 8] 12"
  by (simp add: macro_area_def rec_tag_def rec_len_def area_compact_def
      TYPE_DELETED_def TYPE_VALID_MACRO_def TYPE_CONTINUED_def TYPE_END_def)

lemma area_compact_tags:
  "rec_tag area_compact 5 = TYPE_VALID_MACRO" "rec_tag area_compact 8 = TYPE_VALID_MACRO"
  by (simp_all add: rec_tag_def area_compact_def TYPE_VALID_MACRO_def)

lemma store_compact_simps [simp]:
  "eeprom store_compact = area_compact" "queue store_compact = []"
  "end_macro store_compact = 12" "new_end_macro store_compact = 13"
  by (simp_all add: store_compact_def)

text \<open>
  C9 (the cursors). On the example area \<open>compress\<close> moves the end macro from 17 to 12,
  but \<open>end_macro\<close> and \<open>new_end_macro\<close> keep the values 17 and 18 they had before:
  \<open>compress\<close> never assigns them.
\<close>

theorem compress_cursors_not_updated:
  "\<exists>s'. compress opts0 store_example = Some s'
      \<and> macro_area opts0 (eeprom (flush s')) [5, 8] 12
      \<and> end_macro s' = 17 \<and> new_end_macro s' = 18
      \<and> end_macro s' \<noteq> ptr 12 \<and> new_end_macro s' \<noteq> ptr 13"
proof -
  have a: "macro_area opts0 (eeprom store_example) [5, 8, 10, 14] 17"
    by (simp add: area_example_ok)
  have t: "rec_tag (eeprom store_example) 5 = TYPE_VALID_MACRO"
    "rec_tag (eeprom store_example) 8 = TYPE_DELETED"
    "rec_tag (eeprom store_example) 10 = TYPE_VALID_MACRO"
    "rec_tag (eeprom store_example) 14 = TYPE_DELETED"
    by (simp_all add: area_example_tags)
  have b: "new_end_macro store_example = ptr (Suc 17)" by (simp add: ptr_def)
  have c: "queue store_example = []" by simp
  from compress_ABCD_area [OF a t b c] obtain s' where
    s': "compress opts0 store_example = Some s'"
    and ar: "macro_area opts0 (eeprom (flush s')) [5, 8] 12"
    by (auto simp: area_example_tags)
  from s' have "end_macro s' = 17" "new_end_macro s' = 18"
    by (auto simp: compress_example)
  with s' ar show ?thesis by auto
qed

lemma copy_chunks_queued:
  "src \<le> nxt \<Longrightarrow> nxt < 65536 \<Longrightarrow> n = nxt - src \<Longrightarrow>
     compress_copy s (ptr dst) (ptr src) (ptr nxt) =
       (s\<lparr>queue := queue s @ copy_chunks dst src n\<rparr>, ptr (dst + n), ptr nxt)"
proof (induction n arbitrary: s dst src rule: less_induct)
  case (less n)
  show ?case
  proof (cases "n = 0")
    case True
    with less.prems have "src = nxt" by simp
    with True show ?thesis
      by (simp add: compress_copy_zero copy_chunks.simps)
  next
    case False
    define c where "c = min n 255"
    have c: "0 < c" "c \<le> n" "c \<le> 255" using False by (simp_all add: c_def)
    have len: "ptr nxt - ptr src = ptr n"
      using less.prems by (simp add: ptr_diff)
    have un: "unat (ptr n) = n" using less.prems by (intro unat_ptr) simp
    have nz: "ptr n \<noteq> 0" using False less.prems by (intro ptr_nonzero) simp_all
    have gt: "(0xFF < ptr n) = (255 < n)"
      by (simp add: word_less_nat_alt un)
    have "ptr 255 = (0xFF :: addr)" by (simp add: ptr_def)
    then have len': "(if 0xFF < ptr n then 0xFF else ptr n) = ptr c"
      unfolding gt c_def by (simp add: min_def)
    have uc: "(ucast (ptr c) :: byte) = of_nat c"
      using c by (simp add: ptr_def word_unat_eq_iff unsigned_ucast_eq unat_of_nat take_bit_nat_eq_self)
    let ?s = "eeprom__copy s (ptr dst) (ptr src) (of_nat c)"
    have step: "compress_copy s (ptr dst) (ptr src) (ptr nxt)
                  = compress_copy ?s (ptr (dst + c)) (ptr (src + c)) (ptr nxt)"
      using nz
      by (subst compress_copy.simps) (simp add: Let_def len len' uc, simp add: ptr_def)
    have "compress_copy ?s (ptr (dst + c)) (ptr (src + c)) (ptr nxt) =
       (?s\<lparr>queue := queue ?s @ copy_chunks (dst + c) (src + c) (n - c)\<rparr>, ptr (dst + c + (n - c)), ptr nxt)"
      using less.prems c by (intro less.IH) simp_all
    moreover have "copy_chunks dst src n
        = Copy (ptr dst) (ptr src) (of_nat c) # copy_chunks (dst + c) (src + c) (n - c)"
      using False by (subst copy_chunks.simps) (simp add: c_def)
    ultimately show ?thesis
      using c by (simp add: step eeprom__copy_def)
  qed
qed

lemma copy_chunks_effect:
  assumes "dst < src" "src \<le> nxt" "nxt < 65535"
  shows "(\<forall>c\<in>set (copy_chunks dst src (nxt - src)). op_within dst (dst + (nxt - src)) c \<and> is_copy c)
      \<and> (\<forall>M y. y < 65536 \<longrightarrow> apply_ops (copy_chunks dst src (nxt - src)) M (ptr y) =
            (if dst \<le> y \<and> y < dst + (nxt - src) then M (ptr (src + (y - dst)))
             else M (ptr y)))"
proof -
  fix s :: state
  from compress_copy_nat [OF assms, of s] obtain cs where
    r: "compress_copy s (ptr dst) (ptr src) (ptr nxt)
               = (s\<lparr>queue := queue s @ cs\<rparr>, ptr (dst + (nxt - src)), ptr nxt)"
    and p: "\<forall>c\<in>set cs. op_within dst (dst + (nxt - src)) c \<and> is_copy c"
      "\<forall>M y. y < 65536 \<longrightarrow> apply_ops cs M (ptr y) =
            (if dst \<le> y \<and> y < dst + (nxt - src) then M (ptr (src + (y - dst)))
             else M (ptr y))"
    by blast
  from assms have "compress_copy s (ptr dst) (ptr src) (ptr nxt) =
       (s\<lparr>queue := queue s @ copy_chunks dst src (nxt - src)\<rparr>, ptr (dst + (nxt - src)), ptr nxt)"
    by (intro copy_chunks_queued) simp_all
  with r have "s\<lparr>queue := queue s @ cs\<rparr> = s\<lparr>queue := queue s @ copy_chunks dst src (nxt - src)\<rparr>"
    by simp
  then have "queue (s\<lparr>queue := queue s @ cs\<rparr>) = queue (s\<lparr>queue := queue s @ copy_chunks dst src (nxt - src)\<rparr>)"
    by (rule arg_cong)
  then have "cs = copy_chunks dst src (nxt - src)" by simp
  with p show ?thesis by simp
qed

lemma copy_chunks_nonempty:
  "\<forall>c\<in>set (copy_chunks dst src n). \<exists>t f l. c = Copy t f l \<and> 0 < unat l"
proof (induction dst src n rule: copy_chunks.induct)
  case (1 dst src n)
  show ?case
  proof (cases "n = 0")
    case True
    then show ?thesis by (simp add: copy_chunks.simps)
  next
    case False
    have "unat (of_nat (min n 255) :: byte) = min n 255"
      by (simp add: unat_of_nat take_bit_nat_eq_self)
    with False have "0 < unat (of_nat (min n 255) :: byte)" by simp
    with "1.IH" [OF False] False show ?thesis
      by (subst copy_chunks.simps) auto
  qed
qed

lemma span_facts:
  "seg (eeprom s) x ys e \<Longrightarrow> rec_tag (eeprom s) e = TYPE_END \<Longrightarrow>
     find_next_nondeleted s (ptr x) = Some (ptr (span_start (eeprom s) ys e))
     \<and> seg (eeprom s) (span_start (eeprom s) ys e) (live_from (eeprom s) ys) e
     \<and> x \<le> span_start (eeprom s) ys e
     \<and> rec_tag (eeprom s) (span_start (eeprom s) ys e) \<noteq> TYPE_DELETED
     \<and> rec_tag (eeprom s) (span_start (eeprom s) ys e) \<noteq> TYPE_CONTINUED"
proof (induction ys arbitrary: x)
  case Nil
  then show ?case
    by (simp add: span_start_def live_from_def fnn_stop TYPE_END_def TYPE_DELETED_def TYPE_CONTINUED_def)
next
  case (Cons y ys)
  from Cons.prems have y: "y = x" and r: "seg (eeprom s) (x + rec_len (eeprom s) x) ys e" by auto
  show ?case
  proof (cases "rec_tag (eeprom s) x = TYPE_DELETED \<or> rec_tag (eeprom s) x = TYPE_CONTINUED")
    case True
    then have l: "live_from (eeprom s) (y # ys) = live_from (eeprom s) ys"
      by (simp add: live_from_def y)
    then have st: "span_start (eeprom s) (y # ys) e = span_start (eeprom s) ys e"
      by (simp add: span_start_def)
    from Cons.IH [OF r Cons.prems(2)] fnn_step [OF True] show ?thesis
      unfolding st l by simp
  next
    case False
    then have l: "live_from (eeprom s) (y # ys) = y # ys"
      by (simp add: live_from_def y)
    then have st: "span_start (eeprom s) (y # ys) e = x"
      by (simp add: span_start_def y)
    from False Cons.prems fnn_stop [of s x] show ?thesis
      unfolding st l by simp
  qed
qed

lemma order_of_ops:
  assumes "\<forall>c\<in>set cs. is_copy c" "E = [] \<or> (\<exists>a' b'. E = [Write a' b'] \<and> a' \<noteq> a)"
  shows "copies_before_tag a (cs @ E @ [Write a b])"
  unfolding copies_before_tag_def
proof (intro allI impI)
  fix i j
  assume i: "i < length (cs @ E @ [Write a b])" and j: "j < length (cs @ E @ [Write a b])"
    and h: "(\<exists>b'. (cs @ E @ [Write a b]) ! i = Write a b') \<and> is_copy ((cs @ E @ [Write a b]) ! j)"
  have ii: "i = length cs + length E"
  proof (rule ccontr)
    assume "i \<noteq> length cs + length E"
    with i have il: "i < length cs + length E" by simp
    show False
    proof (cases "i < length cs")
      case True
      then have "(cs @ E @ [Write a b]) ! i = cs ! i" by (simp add: nth_append)
      moreover from True assms(1) have "is_copy (cs ! i)" by simp
      ultimately show False using h by auto
    next
      case False
      with il assms(2) obtain a' b' where E: "E = [Write a' b']" "a' \<noteq> a" by auto
      with False il have "i = length cs" by simp
      then have "(cs @ E @ [Write a b]) ! i = Write a' b'" by (simp add: E nth_append)
      with h E show False by auto
    qed
  qed
  have "j < length cs"
  proof (rule ccontr)
    assume "\<not> j < length cs"
    then have "(cs @ E @ [Write a b]) ! j = (E @ [Write a b]) ! (j - length cs)"
      by (simp add: nth_append)
    moreover from assms(2) j \<open>\<not> j < length cs\<close> have "\<not> is_copy ((E @ [Write a b]) ! (j - length cs))"
      by (auto simp: nth_append nth_Cons split: nat.splits)
    ultimately show False using h by simp
  qed
  with ii show "j < i" by simp
qed

text \<open>
  C10 (order of the writes of one iteration, as the code has it). Let \<open>ys\<close> be the
  macros from \<open>next\<close> (at \<open>x\<close>) up to the end macro at \<open>e\<close>, let the write cursor
  \<open>w\<close> lie before \<open>x\<close>, and let \<open>new_end_macro\<close> point one byte past the end macro.
  Then an iteration of the loop of \<open>compress\<close> returns, and it queues exactly these
  operations, in this order: first the copies of the bytes that follow the tag of the
  span, from \<open>tc + 1\<close> up to \<open>x1\<close>, to \<open>w + 1\<close>, in pieces of 1 to 255 bytes, which
  together move each byte of the body of the span and nothing else; then, when the span
  does not reach the end of the macros (a deleted macro follows it at \<open>x1\<close>), the write
  of an end tag right behind the copied span; and last of all the write of the tag of the
  span, the byte read at \<open>tc\<close>, at the write cursor \<open>w\<close>. Here \<open>tc\<close> is the macro that
  \<open>find_next_nondeleted\<close> returns and \<open>x1\<close> the one that \<open>find_next_deleted\<close> returns
  from there, or \<open>new_end_macro\<close>. The iteration leaves the write cursor behind the
  copied span and \<open>next\<close> at \<open>x1\<close>. So every copy of the span precedes the write
  of its tag.
\<close>

theorem compress_iteration_order:
  assumes sg: "seg (eeprom s) x ys e" and te: "rec_tag (eeprom s) e = TYPE_END"
    and nem: "new_end_macro s = ptr (Suc e)" and e: "e < 65534" and w: "w < x"
    and tc: "tc = span_start (eeprom s) ys e" and x1: "x1 = span_end (eeprom s) ys e"
  shows "compress_iteration s (ptr w) (ptr x) =
           Some (s\<lparr>queue := queue s
                    @ copy_chunks (Suc w) (Suc tc) (x1 - Suc tc)
                    @ (if x1 = Suc e then [] else [Write (ptr (w + (x1 - tc))) TYPE_END])
                    @ [Write (ptr w) (rec_tag (eeprom s) tc)]\<rparr>,
                 ptr (w + (x1 - tc)), ptr x1)
       \<and> find_next_nondeleted s (ptr x) = Some (ptr tc)
       \<and> find_next_deleted s (ptr tc) = Some (if x1 = Suc e then 0 else ptr x1)
       \<and> x \<le> tc \<and> tc < x1 \<and> x1 \<le> Suc e
       \<and> (\<forall>c\<in>set (copy_chunks (Suc w) (Suc tc) (x1 - Suc tc)).
             \<exists>t f l. c = Copy t f l \<and> 0 < unat l)
       \<and> (\<forall>M y. y < 65536 \<longrightarrow>
             apply_ops (copy_chunks (Suc w) (Suc tc) (x1 - Suc tc)) M (ptr y) =
               (if w < y \<and> y < w + (x1 - tc) then M (ptr (tc + (y - w))) else M (ptr y)))
       \<and> copies_before_tag (ptr w)
            (copy_chunks (Suc w) (Suc tc) (x1 - Suc tc)
             @ (if x1 = Suc e then [] else [Write (ptr (w + (x1 - tc))) TYPE_END])
             @ [Write (ptr w) (rec_tag (eeprom s) tc)])"
proof -
  let ?m = "eeprom s"
  let ?rest = "live_from ?m ys"
  from span_facts [OF sg te]
  have fnn: "find_next_nondeleted s (ptr x) = Some (ptr tc)"
    and rest: "seg ?m tc ?rest e" and xtc: "x \<le> tc"
    and tg: "rec_tag ?m tc \<noteq> TYPE_DELETED" "rec_tag ?m tc \<noteq> TYPE_CONTINUED"
    unfolding tc by simp_all
  have fd: "find_next_deleted s (ptr tc) =
       Some (case find (\<lambda>y. rec_tag ?m y = TYPE_DELETED) ?rest of Some d \<Rightarrow> ptr d | None \<Rightarrow> 0)"
    by (rule fnd_find [OF rest te])
  from seg_le [OF rest] have tce: "tc \<le> e" .
  have facts: "tc < x1 \<and> x1 \<le> Suc e
      \<and> find_next_deleted s (ptr tc) = Some (if x1 = Suc e then 0 else ptr x1)
      \<and> (x1 \<noteq> Suc e \<longrightarrow> ptr x1 \<noteq> 0)"
  proof (cases "find (\<lambda>y. rec_tag ?m y = TYPE_DELETED) ?rest")
    case None
    then have "x1 = Suc e" by (simp add: x1 span_end_def)
    with None fd tce show ?thesis by simp
  next
    case (Some d)
    then have d: "x1 = d" by (simp add: x1 span_end_def)
    from Some have dm: "d \<in> set ?rest" and dt: "rec_tag ?m d = TYPE_DELETED"
      by (auto simp: find_Some_iff)
    from seg_mem_bounds [OF rest dm] have b: "tc \<le> d" "d + 2 \<le> e" by simp_all
    from dt tg have "d \<noteq> tc" by auto
    with b have lt: "tc < d" by simp
    from b lt e have "ptr d \<noteq> 0" by (intro ptr_nonzero) simp_all
    with Some fd lt b d show ?thesis by simp
  qed
  then have ord: "tc < x1" "x1 \<le> Suc e"
    and fd': "find_next_deleted s (ptr tc) = Some (if x1 = Suc e then 0 else ptr x1)"
    and nz: "x1 \<noteq> Suc e \<Longrightarrow> ptr x1 \<noteq> 0"
    by simp_all
  from ord e have x1b: "x1 < 65535" by simp
  have ne: "(ptr x1 = ptr (Suc e)) = (x1 = Suc e)"
    using x1b e by (intro ptr_inj) simp_all
  define n where "n = x1 - Suc tc"
  from ord have w1: "Suc w + n = w + (x1 - tc)" by (simp add: n_def)
  have cc: "compress_copy s (ptr (Suc w)) (ptr (Suc tc)) (ptr x1) =
       (s\<lparr>queue := queue s @ copy_chunks (Suc w) (Suc tc) n\<rparr>, ptr (w + (x1 - tc)), ptr x1)"
  proof -
    from ord x1b have "compress_copy s (ptr (Suc w)) (ptr (Suc tc)) (ptr x1) =
       (s\<lparr>queue := queue s @ copy_chunks (Suc w) (Suc tc) n\<rparr>, ptr (Suc w + n), ptr x1)"
      by (intro copy_chunks_queued) (simp_all add: n_def)
    then show ?thesis by (simp only: w1)
  qed
  have it: "compress_iteration s (ptr w) (ptr x) =
           Some (s\<lparr>queue := queue s
                    @ copy_chunks (Suc w) (Suc tc) n
                    @ (if x1 = Suc e then [] else [Write (ptr (w + (x1 - tc))) TYPE_END])
                    @ [Write (ptr w) (rec_tag (eeprom s) tc)]\<rparr>,
                 ptr (w + (x1 - tc)), ptr x1)"
  proof (cases "x1 = Suc e")
    case True
    with cc show ?thesis
      by (simp add: compress_iteration_def fnn fd' Let_def ptr_Suc nem
            eeprom__write_def eeprom__read_def rec_tag_def)
  next
    case False
    with cc nz ne show ?thesis
      by (simp add: compress_iteration_def fnn fd' Let_def ptr_Suc nem
            eeprom__write_def eeprom__read_def rec_tag_def)
  qed
  from w xtc have wtc: "Suc w < Suc tc" by simp
  from ord have le: "Suc tc \<le> x1" by simp
  note eff = copy_chunks_effect [OF wtc le x1b, folded n_def]
  have cop: "\<forall>c\<in>set (copy_chunks (Suc w) (Suc tc) n). is_copy c"
    using eff by blast
  from eff have effA: "apply_ops (copy_chunks (Suc w) (Suc tc) n) M (ptr y) =
            (if Suc w \<le> y \<and> y < Suc w + n then M (ptr (Suc tc + (y - Suc w))) else M (ptr y))"
    if "y < 65536" for M y
    using that by blast
  have ap: "apply_ops (copy_chunks (Suc w) (Suc tc) n) M (ptr y) =
               (if w < y \<and> y < w + (x1 - tc) then M (ptr (tc + (y - w))) else M (ptr y))"
    if y: "y < 65536" for M y
  proof (cases "w < y \<and> y < w + (x1 - tc)")
    case True
    then have a: "Suc w \<le> y \<and> y < Suc w + n" and b: "Suc tc + (y - Suc w) = tc + (y - w)"
      using ord unfolding n_def by arith+
    show ?thesis
      by (simp only: effA [OF y] a b True if_True)
  next
    case False
    then have a: "\<not> (Suc w \<le> y \<and> y < Suc w + n)" using ord unfolding n_def by arith
    show ?thesis
      by (simp only: effA [OF y] a False if_False)
  qed
  have wne: "ptr (w + (x1 - tc)) \<noteq> ptr w"
  proof -
    from w xtc ord x1b have "w + (x1 - tc) < 65536" "w < 65536" "w + (x1 - tc) \<noteq> w" by simp_all
    then show ?thesis by (simp add: ptr_inj)
  qed
  have cb: "copies_before_tag (ptr w)
            (copy_chunks (Suc w) (Suc tc) n
             @ (if x1 = Suc e then [] else [Write (ptr (w + (x1 - tc))) TYPE_END])
             @ [Write (ptr w) (rec_tag (eeprom s) tc)])"
    using cop wne by (intro order_of_ops) auto
  from it fnn fd' xtc ord copy_chunks_nonempty [of "Suc w" "Suc tc" n] ap cb
  show ?thesis unfolding n_def by blast
qed

theorem navigators_terminate_witness:
  "seg (eeprom store_example) 8 [8, 10, 14] 17
   \<and> rec_tag (eeprom store_example) 17 = TYPE_END
   \<and> find_next_deleted store_example (ptr 8) = Some (ptr 8)
   \<and> find_next_nondeleted store_example (ptr 8) = Some (ptr 10)
   \<and> find_next_deleted store_example (ptr 17) = Some 0"
proof -
  have a: "seg (eeprom store_example) 8 [8, 10, 14] 17"
    and b: "rec_tag (eeprom store_example) 17 = TYPE_END"
    and c: "seg (eeprom store_example) 17 [] 17"
    by (simp_all add: rec_tag_def rec_len_def area_example_def
        TYPE_DELETED_def TYPE_VALID_MACRO_def TYPE_CONTINUED_def TYPE_END_def)
  from navigators_terminate [OF a b]
  have r1: "find_next_deleted store_example (ptr 8) = Some (ptr 8)"
    "find_next_nondeleted store_example (ptr 8) = Some (ptr 10)"
    by (simp_all add: area_example_tags)
  from navigators_terminate [OF c b]
  have r2: "find_next_deleted store_example (ptr 17) = Some 0"
    by simp
  from a b r1 r2 show ?thesis by blast
qed

lemma read_example:
  "read_key_action store_example 7 = Some \<lparr>pressed = False, layer = 0, row = 1, column = 1\<rparr>"
  "read_key_action store_example 12 = Some \<lparr>pressed = True, layer = 0, row = 1, column = 2\<rparr>"
  by (simp_all add: read_key_action_def Let_def eeprom__read_def read_loop_stop area_example_def)

theorem find_key_action_correct_witness:
  "macro_area opts0 (eeprom store_example) [5, 8, 10, 14] 17
   \<and> trigger_ok (eeprom store_example) 5 \<and> trigger_ok (eeprom store_example) 10
   \<and> find_key_action opts0 store_example \<lparr>pressed = True, layer = 0, row = 1, column = 2\<rparr>
       = Some (ptr 10)
   \<and> find_key_action opts0 store_example \<lparr>pressed = True, layer = 0, row = 0, column = 0\<rparr>
       = Some 0"
proof -
  have a: "macro_area opts0 (eeprom store_example) [5, 8, 10, 14] 17"
    by (simp add: area_example_ok)
  have t5: "trigger_ok (eeprom store_example) 5"
    unfolding trigger_ok_def
    by (rule bexI [of _ 2]) (simp_all add: area_example_tags, simp add: area_example_def)
  have t10: "trigger_ok (eeprom store_example) 10"
    unfolding trigger_ok_def
    by (rule bexI [of _ 2]) (simp_all add: area_example_tags, simp add: area_example_def)
  from t5 t10 have b: "\<forall>x\<in>set [5, 8, 10, 14]. rec_tag (eeprom store_example) x = TYPE_VALID_MACRO
          \<longrightarrow> trigger_ok (eeprom store_example) x"
    by (simp add: area_example_tags)
  from find_key_action_correct [OF a b, of "\<lparr>pressed = True, layer = 0, row = 1, column = 2\<rparr>"]
  have r1: "find_key_action opts0 store_example \<lparr>pressed = True, layer = 0, row = 1, column = 2\<rparr>
       = Some (ptr 10)"
    by (simp add: area_example_tags read_example)
  from find_key_action_correct [OF a b, of "\<lparr>pressed = True, layer = 0, row = 0, column = 0\<rparr>"]
  have r2: "find_key_action opts0 store_example \<lparr>pressed = True, layer = 0, row = 0, column = 0\<rparr>
       = Some 0"
    by (simp add: area_example_tags read_example)
  from a t5 t10 r1 r2 show ?thesis by blast
qed

theorem compress_idempotent_witness:
  "macro_area opts0 (eeprom store_example) [5, 8, 10, 14] 17
   \<and> new_end_macro store_example = ptr (Suc 17) \<and> queue store_example = []
   \<and> (\<exists>s1. compress opts0 store_example = Some s1
          \<and> compress opts0 (flush s1) = Some (flush s1)
          \<and> eeprom (flush (flush s1)) = eeprom (flush s1))
   \<and> macro_area opts0 (eeprom store_compact) [5, 8] 12
   \<and> rec_tag (eeprom store_compact) 5 \<noteq> TYPE_DELETED
   \<and> rec_tag (eeprom store_compact) 8 \<noteq> TYPE_DELETED
   \<and> compress opts0 store_compact = Some store_compact"
proof -
  have a: "macro_area opts0 (eeprom store_example) [5, 8, 10, 14] 17"
    by (simp add: area_example_ok)
  have b: "new_end_macro store_example = ptr (Suc 17)"
    by (simp add: ptr_def)
  have c: "queue store_example = []" by simp
  have a': "macro_area opts0 (eeprom store_compact) [5, 8] 12"
    by (simp add: area_compact_ok)
  have e': "rec_tag (eeprom store_compact) 5 \<noteq> TYPE_DELETED"
    "rec_tag (eeprom store_compact) 8 \<noteq> TYPE_DELETED"
    by (simp_all add: area_compact_tags)
  then have d': "\<forall>x\<in>set [5, 8]. rec_tag (eeprom store_compact) x \<noteq> TYPE_DELETED"
    by simp
  from compress_idempotent [OF a'] d'
  have r': "compress opts0 store_compact = Some store_compact" by blast
  from compress_idempotent [OF a] b c
  have r: "\<exists>s1. compress opts0 store_example = Some s1
          \<and> compress opts0 (flush s1) = Some (flush s1)
          \<and> eeprom (flush (flush s1)) = eeprom (flush s1)" by blast
  from a b c r a' e' r' show ?thesis by blast
qed

lemma iteration_example:
  "compress_iteration (store_example\<lparr>queue := [Write 8 TYPE_END]\<rparr>) 8 10 =
     Some (store_example\<lparr>queue := [Write 8 TYPE_END, Copy 9 11 3, Write 12 TYPE_END,
                                       Write 8 TYPE_VALID_MACRO]\<rparr>, 12, 14)"
  using iteration_ABCD [of opts0 store_example 5 8 10 14 17 "[Write 8 TYPE_END]"]
  by (simp add: area_example_ok area_example_tags)

lemma area_long_tags:
  "rec_tag area_long 5 = TYPE_DELETED" "rec_tag area_long 7 = TYPE_VALID_MACRO"
  "rec_tag area_long 262 = TYPE_CONTINUED" "rec_tag area_long 312 = TYPE_END"
  "rec_len area_long 5 = 2" "rec_len area_long 7 = 255" "rec_len area_long 262 = 50"
  by (simp_all add: rec_tag_def rec_len_def area_long_def
      TYPE_DELETED_def TYPE_VALID_MACRO_def TYPE_CONTINUED_def TYPE_END_def)

lemma tags_distinct:
  "TYPE_VALID_MACRO \<noteq> TYPE_DELETED" "TYPE_VALID_MACRO \<noteq> TYPE_CONTINUED"
  "TYPE_END \<noteq> TYPE_DELETED" "TYPE_END \<noteq> TYPE_CONTINUED" "TYPE_DELETED \<noteq> TYPE_CONTINUED"
  "TYPE_DELETED \<noteq> TYPE_VALID_MACRO" "TYPE_CONTINUED \<noteq> TYPE_DELETED"
  by (simp_all add: TYPE_DELETED_def TYPE_VALID_MACRO_def TYPE_CONTINUED_def TYPE_END_def)

lemma chunks_example:
  "copy_chunks 9 11 3 = [Copy 9 11 3]"
  "copy_chunks 6 8 305 = [Copy 6 8 255, Copy 261 263 50]"
  "copy_chunks 13 18 0 = []"
  by (simp_all add: copy_chunks.simps)

theorem compress_iteration_order_witness:
  "seg (eeprom (store_example\<lparr>queue := [Write 8 TYPE_END]\<rparr>)) 10 [10, 14] 17
   \<and> rec_tag (eeprom (store_example\<lparr>queue := [Write 8 TYPE_END]\<rparr>)) 17 = TYPE_END
   \<and> new_end_macro (store_example\<lparr>queue := [Write 8 TYPE_END]\<rparr>) = ptr (Suc 17)
   \<and> (17 :: nat) < 65534 \<and> (8 :: nat) < 10
   \<and> span_start area_example [10, 14] 17 = 10 \<and> span_end area_example [10, 14] 17 = 14
   \<and> compress_iteration (store_example\<lparr>queue := [Write 8 TYPE_END]\<rparr>) 8 10 =
       Some (store_example\<lparr>queue := [Write 8 TYPE_END, Copy 9 11 3, Write 12 TYPE_END,
                                         Write 8 TYPE_VALID_MACRO]\<rparr>, 12, 14)
   \<and> copies_before_tag 8 [Copy 9 11 3, Write 12 TYPE_END, Write 8 TYPE_VALID_MACRO]
   \<and> seg (eeprom store_long) 7 [7, 262] 312
   \<and> rec_tag (eeprom store_long) 312 = TYPE_END
   \<and> new_end_macro store_long = ptr (Suc 312)
   \<and> (312 :: nat) < 65534 \<and> (5 :: nat) < 7
   \<and> span_start area_long [7, 262] 312 = 7 \<and> span_end area_long [7, 262] 312 = 313
   \<and> compress_iteration store_long 5 7 =
       Some (store_long\<lparr>queue := [Write 5 TYPE_END, Copy 6 8 255, Copy 261 263 50,
                                    Write 5 TYPE_VALID_MACRO]\<rparr>, 311, 313)
   \<and> copies_before_tag 5 [Copy 6 8 255, Copy 261 263 50, Write 5 TYPE_VALID_MACRO]"
proof -
  let ?s = "store_example\<lparr>queue := [Write 8 TYPE_END]\<rparr>"
  have len14: "rec_len area_example 14 = 3"
    by (simp add: rec_len_def area_example_def)
  have a: "seg (eeprom ?s) 10 [10, 14] 17"
    and b: "rec_tag (eeprom ?s) 17 = TYPE_END"
    and c: "new_end_macro ?s = ptr (Suc 17)"
    by (simp_all add: area_example_tags tags_distinct len14)
  have st: "span_start area_example [10, 14] 17 = 10" "span_end area_example [10, 14] 17 = 14"
    by (simp_all add: span_start_def span_end_def live_from_def area_example_tags tags_distinct)
  have a': "seg (eeprom store_long) 7 [7, 262] 312"
    and b': "rec_tag (eeprom store_long) 312 = TYPE_END"
    and c': "new_end_macro store_long = ptr (Suc 312)"
    by (simp_all add: store_long_def area_long_tags tags_distinct)
  have st': "span_start area_long [7, 262] 312 = 7" "span_end area_long [7, 262] 312 = 313"
    by (simp_all add: span_start_def span_end_def live_from_def area_long_tags tags_distinct)
  have e1: "eeprom ?s = area_example" and e2: "eeprom store_long = area_long"
    by (simp_all add: store_long_def)
  have d: "(17 :: nat) < 65534" "(8 :: nat) < 10" and d': "(312 :: nat) < 65534" "(5 :: nat) < 7"
    by simp_all
  from compress_iteration_order [OF a b c d refl refl]
  have r: "compress_iteration ?s 8 10 =
       Some (store_example\<lparr>queue := [Write 8 TYPE_END, Copy 9 11 3, Write 12 TYPE_END,
                                         Write 8 TYPE_VALID_MACRO]\<rparr>, 12, 14)"
    "copies_before_tag 8 [Copy 9 11 3, Write 12 TYPE_END, Write 8 TYPE_VALID_MACRO]"
    by (simp_all add: e1 st chunks_example area_example_tags)
  from compress_iteration_order [OF a' b' c' d' refl refl]
  have r': "compress_iteration store_long 5 7 =
       Some (store_long\<lparr>queue := [Write 5 TYPE_END, Copy 6 8 255, Copy 261 263 50,
                                    Write 5 TYPE_VALID_MACRO]\<rparr>, 311, 313)"
    "copies_before_tag 5 [Copy 6 8 255, Copy 261 263 50, Write 5 TYPE_VALID_MACRO]"
    by (simp_all add: e2 st' chunks_example area_long_tags, simp_all add: store_long_def)
  from a b c d st r a' b' c' d' st' r' show ?thesis by blast
qed

text \<open>
  On the example area the tag of the copied macro (the write of \<open>TYPE_VALID_MACRO\<close> at
  address 8) is queued after the copy of its remaining bytes, not before: both in the
  operations of the first iteration and in everything \<open>compress\<close> queues.
\<close>

theorem tag_before_copies_counterexample:
  "compress opts0 store_example =
     Some (store_example\<lparr>queue := [Write 8 TYPE_END, Copy 9 11 3, Write 12 TYPE_END,
                                       Write 8 TYPE_VALID_MACRO, Write 12 TYPE_END]\<rparr>)
   \<and> compress_iteration (store_example\<lparr>queue := [Write 8 TYPE_END]\<rparr>) 8 10 =
     Some (store_example\<lparr>queue := [Write 8 TYPE_END, Copy 9 11 3, Write 12 TYPE_END,
                                       Write 8 TYPE_VALID_MACRO]\<rparr>, 12, 14)
   \<and> \<not> tag_before_copies 8 TYPE_VALID_MACRO [Copy 9 11 3, Write 12 TYPE_END, Write 8 TYPE_VALID_MACRO]
   \<and> \<not> tag_before_copies 8 TYPE_VALID_MACRO
         [Write 8 TYPE_END, Copy 9 11 3, Write 12 TYPE_END, Write 8 TYPE_VALID_MACRO,
          Write 12 TYPE_END]"
proof -
  have 1: "\<not> tag_before_copies 8 TYPE_VALID_MACRO [Copy 9 11 3, Write 12 TYPE_END, Write 8 TYPE_VALID_MACRO]"
  proof
    assume "tag_before_copies 8 TYPE_VALID_MACRO [Copy 9 11 3, Write 12 TYPE_END, Write 8 TYPE_VALID_MACRO]"
    then have "(2::nat) < 0"
      unfolding tag_before_copies_def
      by (elim allE [of _ 2] impE allE [of _ 0]) simp_all
    then show False by simp
  qed
  have 2: "\<not> tag_before_copies 8 TYPE_VALID_MACRO
         [Write 8 TYPE_END, Copy 9 11 3, Write 12 TYPE_END, Write 8 TYPE_VALID_MACRO,
          Write 12 TYPE_END]"
  proof
    assume "tag_before_copies 8 TYPE_VALID_MACRO
         [Write 8 TYPE_END, Copy 9 11 3, Write 12 TYPE_END, Write 8 TYPE_VALID_MACRO,
          Write 12 TYPE_END]"
    then have "(3::nat) < 1"
      unfolding tag_before_copies_def
      by (elim allE [of _ 3] impE allE [of _ 1]) simp_all
    then show False by simp
  qed
  from 1 2 compress_example iteration_example show ?thesis by blast
qed

end
